theory Spec2Isabelle
  imports Main
begin

section \<open>The board and the search state\<close>

text \<open>
  The program works on \<open>int g[N][N]\<close> with \<open>N = 9\<close>; an empty cell holds
  \<open>UNASSIGNED = 0\<close>. A grid is modelled as a list of rows, \<open>g ! row ! col\<close>
  reads \<open>g[row][col]\<close>. The C library's \<open>rand()\<close> is an arbitrary infinite
  sequence of non-negative numbers \<open>rng 0, rng 1, ...\<close>, consumed one element
  per call.
\<close>

type_synonym grid = "int list list"

abbreviation N :: nat where "N \<equiv> 9"

abbreviation UNASSIGNED :: int where "UNASSIGNED \<equiv> 0"

text \<open>
  The state threaded through the search: the array the parameter \<open>g\<close> points to,
  the state of the random number generator, and a history that records the grid after
  every write made by the three searches (the history is not in the program; it makes
  the intermediate states of the search visible).
\<close>

record state =
  grid :: grid
  rng :: "nat \<Rightarrow> nat"
  trace :: "grid list"

definition rand :: "state \<Rightarrow> nat \<times> state" where
  "rand st = (rng st 0, st\<lparr>rng := (\<lambda>i. rng st (Suc i))\<rparr>)"

definition setCell :: "grid \<Rightarrow> nat \<Rightarrow> nat \<Rightarrow> int \<Rightarrow> grid" where
  "setCell g row col v = g[row := (g ! row)[col := v]]"

text \<open>\<open>g[row][col] = v\<close> inside a search: the write, recorded in the history.\<close>

definition assign :: "nat \<Rightarrow> nat \<Rightarrow> int \<Rightarrow> state \<Rightarrow> state" where
  "assign row col v st =
     st\<lparr>grid := setCell (grid st) row col v,
        trace := trace st @ [setCell (grid st) row col v]\<rparr>"

section \<open>Constraint checker and grid utilities\<close>

definition usedInRow :: "grid \<Rightarrow> nat \<Rightarrow> int \<Rightarrow> bool" where
  "usedInRow g row num = list_ex (\<lambda>c. g ! row ! c = num) [0..<N]"

definition usedInCol :: "grid \<Rightarrow> nat \<Rightarrow> int \<Rightarrow> bool" where
  "usedInCol g col num = list_ex (\<lambda>r. g ! r ! col = num) [0..<N]"

definition usedInBox :: "grid \<Rightarrow> nat \<Rightarrow> nat \<Rightarrow> int \<Rightarrow> bool" where
  "usedInBox g boxStartRow boxStartCol num =
     list_ex (\<lambda>r. list_ex (\<lambda>c. g ! (boxStartRow + r) ! (boxStartCol + c) = num) [0..<3]) [0..<3]"

definition isSafe :: "grid \<Rightarrow> nat \<Rightarrow> nat \<Rightarrow> int \<Rightarrow> bool" where
  "isSafe g row col num \<longleftrightarrow>
     \<not> usedInRow g row num \<and>
     \<not> usedInCol g col num \<and>
     \<not> usedInBox g (row - row mod 3) (col - col mod 3) num \<and>
     g ! row ! col = UNASSIGNED"

text \<open>Row-major scan for the first empty cell; \<open>None\<close> is the C function's \<open>false\<close>.\<close>

definition findUnassigned :: "grid \<Rightarrow> (nat \<times> nat) option" where
  "findUnassigned g =
     find (\<lambda>(row, col). g ! row ! col = UNASSIGNED) (List.product [0..<N] [0..<N])"

text \<open>
  The Fisher-Yates loop \<open>for (i = k; i > 0; --i) { j = rand() % (i + 1); swap }\<close>,
  written once for its two occurrences (digits with \<open>k = 8\<close>, cells with \<open>k = 80\<close>).
\<close>

definition swap :: "'a list \<Rightarrow> nat \<Rightarrow> nat \<Rightarrow> 'a list" where
  "swap out i j = (out[i := out ! j])[j := out ! i]"

fun fisherYates :: "nat \<Rightarrow> 'a list \<Rightarrow> state \<Rightarrow> 'a list \<times> state" where
  "fisherYates 0 out st = (out, st)"
| "fisherYates (Suc k) out st =
     (case rand st of (x, st1) \<Rightarrow>
        fisherYates k (swap out (Suc k) (x mod (Suc k + 1))) st1)"

definition shuffledDigits :: "state \<Rightarrow> int list \<times> state" where
  "shuffledDigits st = fisherYates 8 (map (\<lambda>i. int i + 1) [0..<9]) st"

section \<open>Solver, fill routine and solution counter\<close>

text \<open>
  The three searches recurse through the loop over the candidate digits. The first
  argument bounds the depth of the recursion: \<open>None\<close> means that the bound was too
  small, and the theorems below show that a bound above the number of empty cells is
  always enough.
\<close>

fun solveSudoku :: "nat \<Rightarrow> state \<Rightarrow> (bool \<times> state) option"
  and solveDigits :: "nat \<Rightarrow> nat \<Rightarrow> nat \<Rightarrow> int list \<Rightarrow> state \<Rightarrow> (bool \<times> state) option"
where
  "solveSudoku 0 st = None"
| "solveSudoku (Suc fuel) st =
     (case findUnassigned (grid st) of
        None \<Rightarrow> Some (True, st)
      | Some (row, col) \<Rightarrow>
          (case shuffledDigits st of (order, st1) \<Rightarrow> solveDigits fuel row col order st1))"
| "solveDigits fuel row col [] st = Some (False, st)"
| "solveDigits fuel row col (num # rest) st =
     (if isSafe (grid st) row col num then
        (case solveSudoku fuel (assign row col num st) of
           None \<Rightarrow> None
         | Some (ok, st2) \<Rightarrow>
             if ok then Some (True, st2)
             else solveDigits fuel row col rest (assign row col UNASSIGNED st2))
      else solveDigits fuel row col rest st)"

fun countSolutionsDFS :: "nat \<Rightarrow> int \<Rightarrow> int \<Rightarrow> state \<Rightarrow> (int \<times> state) option"
  and countDigits :: "nat \<Rightarrow> int \<Rightarrow> nat \<Rightarrow> nat \<Rightarrow> int list \<Rightarrow> int \<Rightarrow> state \<Rightarrow> (int \<times> state) option"
where
  "countSolutionsDFS 0 limit count st = None"
| "countSolutionsDFS (Suc fuel) limit count st =
     (if count \<ge> limit then Some (count, st)
      else
        (case findUnassigned (grid st) of
           None \<Rightarrow> Some (count + 1, st)
         | Some (row, col) \<Rightarrow>
             (case shuffledDigits st of (order, st1) \<Rightarrow>
                countDigits fuel limit row col order count st1)))"
| "countDigits fuel limit row col [] count st = Some (count, st)"
| "countDigits fuel limit row col (num # rest) count st =
     (if isSafe (grid st) row col num then
        (case countSolutionsDFS fuel limit count (assign row col num st) of
           None \<Rightarrow> None
         | Some (count2, st2) \<Rightarrow>
             if count2 \<ge> limit then Some (count2, assign row col UNASSIGNED st2)
             else countDigits fuel limit row col rest count2 (assign row col UNASSIGNED st2))
      else countDigits fuel limit row col rest count st)"

text \<open>
  \<open>countSolutions\<close> copies the caller's grid cell by cell into the local array
  \<open>tmp\<close> and searches there. The local array starts with unspecified contents; the
  model starts it at zero, and every cell is overwritten by the copy.
\<close>

definition copyCells :: "grid \<Rightarrow> grid \<Rightarrow> grid" where
  "copyCells src dst =
     fold (\<lambda>r t. fold (\<lambda>c t. setCell t r c (src ! r ! c)) [0..<N] t) [0..<N] dst"

definition countSolutions :: "nat \<Rightarrow> int \<Rightarrow> state \<Rightarrow> (int \<times> state) option" where
  "countSolutions fuel limit st =
     (let tmp = copyCells (grid st) (replicate N (replicate N 0)) in
      case countSolutionsDFS fuel limit 0 (st\<lparr>grid := tmp\<rparr>) of
        None \<Rightarrow> None
      | Some (cnt, st') \<Rightarrow> Some (cnt, st'\<lparr>grid := grid st\<rparr>))"

fun fillGrid :: "nat \<Rightarrow> state \<Rightarrow> (bool \<times> state) option"
  and fillDigits :: "nat \<Rightarrow> nat \<Rightarrow> nat \<Rightarrow> int list \<Rightarrow> state \<Rightarrow> (bool \<times> state) option"
where
  "fillGrid 0 st = None"
| "fillGrid (Suc fuel) st =
     (case findUnassigned (grid st) of
        None \<Rightarrow> Some (True, st)
      | Some (row, col) \<Rightarrow>
          (case shuffledDigits st of (order, st1) \<Rightarrow> fillDigits fuel row col order st1))"
| "fillDigits fuel row col [] st = Some (False, st)"
| "fillDigits fuel row col (num # rest) st =
     (if isSafe (grid st) row col num then
        (case fillGrid fuel (assign row col num st) of
           None \<Rightarrow> None
         | Some (ok, st2) \<Rightarrow>
             if ok then Some (True, st2)
             else fillDigits fuel row col rest (assign row col UNASSIGNED st2))
      else fillDigits fuel row col rest st)"

section \<open>Generator\<close>

text \<open>
  \<open>carveLoop\<close> is the second loop of \<open>carveUnique\<close>, over the shuffled cell
  indices that are left; it also returns the final value of the local counter
  \<open>removed\<close>. The writes of the generator go to the grid directly and are not part
  of the search history.
\<close>

fun carveLoop :: "nat \<Rightarrow> int \<Rightarrow> nat list \<Rightarrow> int \<Rightarrow> state \<Rightarrow> (int \<times> state) option" where
  "carveLoop fuel toRemove [] removed st = Some (removed, st)"
| "carveLoop fuel toRemove (pos # rest) removed st =
     (if \<not> removed < toRemove then Some (removed, st)
      else
        (let r = pos div 9; c = pos mod 9 in
         if grid st ! r ! c = UNASSIGNED then carveLoop fuel toRemove rest removed st
         else
           (let backup = grid st ! r ! c;
                st1 = st\<lparr>grid := setCell (grid st) r c UNASSIGNED\<rparr>
            in case countSolutions fuel 2 st1 of
                 None \<Rightarrow> None
               | Some (solCount, st2) \<Rightarrow>
                   if solCount = 1 then carveLoop fuel toRemove rest (removed + 1) st2
                   else carveLoop fuel toRemove rest removed
                          (st2\<lparr>grid := setCell (grid st2) r c backup\<rparr>))))"

definition carveUnique :: "nat \<Rightarrow> int \<Rightarrow> state \<Rightarrow> (int \<times> state) option" where
  "carveUnique fuel toRemove st =
     (case fisherYates 80 [0..<81] st of (cells, st1) \<Rightarrow>
        carveLoop fuel toRemove cells 0 st1)"

definition clearCells :: "grid \<Rightarrow> grid" where
  "clearCells out =
     fold (\<lambda>r t. fold (\<lambda>c t. setCell t r c UNASSIGNED) [0..<N] t) [0..<N] out"

text \<open>
  The \<open>if\<close> chain of \<open>generatePuzzle\<close> that picks the number of clues; each
  branch calls \<open>rand()\<close> once.
\<close>

definition chooseClues :: "string \<Rightarrow> state \<Rightarrow> int \<times> state" where
  "chooseClues difficulty st =
     (if difficulty = ''easy'' then (case rand st of (x, st1) \<Rightarrow> (45 + int x mod 6, st1))
      else if difficulty = ''medium'' then (case rand st of (x, st1) \<Rightarrow> (34 + int x mod 6, st1))
      else if difficulty = ''hard'' then (case rand st of (x, st1) \<Rightarrow> (24 + int x mod 6, st1))
      else (case rand st of (x, st1) \<Rightarrow> (34 + int x mod 6, st1)))"

text \<open>
  \<open>generatePuzzle\<close> calls itself again when \<open>fillGrid\<close> fails, so it takes the
  depth bound too and hands it to the functions it calls.
\<close>

fun generatePuzzle :: "nat \<Rightarrow> string \<Rightarrow> state \<Rightarrow> (int \<times> state) option" where
  "generatePuzzle 0 difficulty st = None"
| "generatePuzzle (Suc fuel) difficulty st =
     (case fillGrid fuel (st\<lparr>grid := clearCells (grid st)\<rparr>) of
        None \<Rightarrow> None
      | Some (ok, st1) \<Rightarrow>
          if \<not> ok then generatePuzzle fuel difficulty st1
          else
            (case chooseClues difficulty st1 of (clues, st2) \<Rightarrow>
               carveUnique fuel (81 - clues) st2))"

section \<open>Specification vocabulary\<close>

text \<open>
  The words of the specification. \<open>cells\<close> lists the 81 positions in row-major
  order and \<open>cellAt g (r, c)\<close> is \<open>g[r][c]\<close>. A grid is well formed when it has
  nine rows of nine cells, as every \<open>int[9][9]\<close> has. A unit is a row, a column or a
  3x3 box, given by the positions of its nine cells; \<open>units\<close> lists the 27 of them.
\<close>

definition cells :: "(nat \<times> nat) list" where
  "cells = List.product [0..<N] [0..<N]"

definition cellAt :: "grid \<Rightarrow> nat \<times> nat \<Rightarrow> int" where
  "cellAt g p = g ! fst p ! snd p"

definition wf_grid :: "grid \<Rightarrow> bool" where
  "wf_grid g \<longleftrightarrow> length g = N \<and> (\<forall>row\<in>set g. length row = N)"

definition rowCells :: "nat \<Rightarrow> (nat \<times> nat) list" where
  "rowCells r = map (\<lambda>c. (r, c)) [0..<N]"

definition colCells :: "nat \<Rightarrow> (nat \<times> nat) list" where
  "colCells c = map (\<lambda>r. (r, c)) [0..<N]"

definition boxCells :: "nat \<Rightarrow> nat \<Rightarrow> (nat \<times> nat) list" where
  "boxCells br bc = concat (map (\<lambda>r. map (\<lambda>c. (br + r, bc + c)) [0..<3]) [0..<3])"

definition units :: "(nat \<times> nat) list list" where
  "units = map rowCells [0..<N] @ map colCells [0..<N] @
           concat (map (\<lambda>i. map (\<lambda>j. boxCells (3 * i) (3 * j)) [0..<3]) [0..<3])"

definition unitVals :: "grid \<Rightarrow> (nat \<times> nat) list \<Rightarrow> int list" where
  "unitVals g u = map (cellAt g) u"

text \<open>
  The data model: every cell holds 0 or a digit 1..9 (\<open>in_range\<close>); no nonzero
  digit occurs twice in a row, column or box (\<open>no_dup\<close>). A grid is \<open>valid\<close> when
  it is well formed and both hold. A grid is \<open>solved\<close> when it has no empty cell and
  every unit contains each digit 1..9 exactly once. \<open>h\<close> extends \<open>g\<close> when it
  agrees with \<open>g\<close> on every filled cell of \<open>g\<close>; the completions of \<open>g\<close> are
  the solved grids that extend it.
\<close>

definition in_range :: "grid \<Rightarrow> bool" where
  "in_range g \<longleftrightarrow> (\<forall>p\<in>set cells. 0 \<le> cellAt g p \<and> cellAt g p \<le> 9)"

definition no_dup :: "grid \<Rightarrow> bool" where
  "no_dup g \<longleftrightarrow> (\<forall>u\<in>set units. distinct (filter (\<lambda>v. v \<noteq> UNASSIGNED) (unitVals g u)))"

definition valid :: "grid \<Rightarrow> bool" where
  "valid g \<longleftrightarrow> wf_grid g \<and> in_range g \<and> no_dup g"

definition full :: "grid \<Rightarrow> bool" where
  "full g \<longleftrightarrow> (\<forall>p\<in>set cells. cellAt g p \<noteq> UNASSIGNED)"

definition each_once :: "int list \<Rightarrow> bool" where
  "each_once vs \<longleftrightarrow> (\<forall>d\<in>set [1..9]. count_list vs d = 1)"

definition solved :: "grid \<Rightarrow> bool" where
  "solved g \<longleftrightarrow> wf_grid g \<and> full g \<and> (\<forall>u\<in>set units. each_once (unitVals g u))"

definition extends :: "grid \<Rightarrow> grid \<Rightarrow> bool" where
  "extends g h \<longleftrightarrow> (\<forall>p\<in>set cells. cellAt g p \<noteq> UNASSIGNED \<longrightarrow> cellAt h p = cellAt g p)"

definition completions :: "grid \<Rightarrow> grid set" where
  "completions g = {h. solved h \<and> extends g h}"

definition count_empty :: "grid \<Rightarrow> nat" where
  "count_empty g = length (filter (\<lambda>p. cellAt g p = UNASSIGNED) cells)"

definition count_filled :: "grid \<Rightarrow> nat" where
  "count_filled g = length (filter (\<lambda>p. cellAt g p \<noteq> UNASSIGNED) cells)"

section \<open>Predicates used in the proofs\<close>

text \<open>
  What a call of the solver leaves behind: a grid of the right shape that is either a
  full extension of the grid it started from (result true) or that grid itself (result
  false).
\<close>

definition solve_post :: "grid \<Rightarrow> bool \<Rightarrow> grid \<Rightarrow> bool" where
  "solve_post g ok g' \<longleftrightarrow> wf_grid g' \<and> (if ok then full g' \<and> extends g g' else g' = g)"

text \<open>
  The history grows by appending, and every state appended is well formed and has no
  duplicate.
\<close>

definition steps_no_dup :: "state \<Rightarrow> state \<Rightarrow> bool" where
  "steps_no_dup st st' \<longleftrightarrow>
     (\<exists>new. trace st' = trace st @ new \<and> (\<forall>x\<in>set new. wf_grid x \<and> no_dup x))"

text \<open>
  The all-zero grid, and the clue range of a difficulty token as the specification
  lists it (any token other than \<open>easy\<close> and \<open>hard\<close> gets the medium range).
\<close>

definition emptyGrid :: grid where
  "emptyGrid = replicate N (replicate N UNASSIGNED)"

definition clueRange :: "string \<Rightarrow> int \<times> int" where
  "clueRange difficulty =
     (if difficulty = ''easy'' then (45, 50)
      else if difficulty = ''hard'' then (24, 29)
      else (34, 39))"

text \<open>
  A filled cell is irremovable when clearing it leaves a grid with at least two
  completions: carving cannot take it without losing uniqueness.
\<close>

definition irremovable :: "grid \<Rightarrow> nat \<times> nat \<Rightarrow> bool" where
  "irremovable g p \<longleftrightarrow>
     (cellAt g p \<noteq> UNASSIGNED \<longrightarrow>
      2 \<le> card (completions (setCell g (fst p) (snd p) UNASSIGNED)))"

text \<open>
  \<open>rand()\<close> returns a value in \<open>0..RAND_MAX\<close>. The constant belongs to the C
  library and is not in the source, so it is a parameter here. \<open>drawCount\<close> is the
  number of values of \<open>rand()\<close> for which the \<open>if\<close> chain of \<open>generatePuzzle\<close>
  picks the clue target \<open>t\<close>: when \<open>rand()\<close> is uniform on \<open>0..RAND_MAX\<close>, the
  target is uniform on its range exactly when these numbers agree.
\<close>

definition drawCount :: "string \<Rightarrow> state \<Rightarrow> nat \<Rightarrow> int \<Rightarrow> nat" where
  "drawCount difficulty st randMax t =
     length (filter (\<lambda>x. fst (chooseClues difficulty (st\<lparr>rng := (\<lambda>i. x)\<rparr>)) = t)
               [0..<Suc randMax])"

section \<open>Example inputs\<close>

definition example_solution :: grid where
  "example_solution =
     [[1, 2, 3, 4, 5, 6, 7, 8, 9],
      [4, 5, 6, 7, 8, 9, 1, 2, 3],
      [7, 8, 9, 1, 2, 3, 4, 5, 6],
      [2, 3, 4, 5, 6, 7, 8, 9, 1],
      [5, 6, 7, 8, 9, 1, 2, 3, 4],
      [8, 9, 1, 2, 3, 4, 5, 6, 7],
      [3, 4, 5, 6, 7, 8, 9, 1, 2],
      [6, 7, 8, 9, 1, 2, 3, 4, 5],
      [9, 1, 2, 3, 4, 5, 6, 7, 8]]"

definition example_puzzle :: grid where
  "example_puzzle =
     [[1, 2, 3, 4, 5, 6, 7, 8, 9],
      [4, 5, 6, 7, 8, 9, 1, 2, 3],
      [7, 8, 9, 1, 2, 3, 4, 5, 6],
      [2, 3, 4, 5, 6, 7, 8, 9, 1],
      [5, 6, 7, 8, 9, 1, 2, 3, 4],
      [8, 9, 1, 2, 3, 4, 5, 6, 7],
      [3, 4, 5, 6, 7, 0, 9, 1, 2],
      [6, 7, 8, 9, 1, 2, 3, 4, 5],
      [9, 1, 2, 3, 4, 5, 6, 0, 0]]"

definition example_state :: "grid \<Rightarrow> state" where
  "example_state g = \<lparr>grid = g, rng = (\<lambda>i. 7 * i + 3), trace = []\<rparr>"

text \<open>A grid that breaks the uniqueness rule: every cell holds 1.\<close>

definition clash_grid :: grid where
  "clash_grid = replicate N (replicate N 1)"

text \<open>
  A grid with no duplicate in any row, column or box that has no completion: rows 0
  and 3 both lack only a 9, and their empty cells are in the same column. The solver
  places 9 in row 0, fails in row 3, takes the 9 back and returns false.
\<close>

definition dead_end :: grid where
  "dead_end =
     [[1, 2, 3, 4, 5, 6, 7, 0, 8],
      [4, 5, 6, 7, 8, 9, 1, 2, 3],
      [7, 8, 9, 1, 2, 3, 4, 5, 6],
      [2, 3, 4, 5, 6, 7, 8, 0, 1],
      [5, 6, 7, 8, 9, 1, 2, 3, 4],
      [8, 9, 1, 2, 3, 4, 5, 6, 7],
      [3, 4, 5, 6, 7, 8, 9, 1, 2],
      [6, 7, 8, 9, 1, 2, 3, 4, 5],
      [9, 1, 2, 3, 4, 5, 6, 7, 0]]"

section \<open>Cells and grids\<close>

lemma in_cells: "(r, c) \<in> set cells \<longleftrightarrow> r < 9 \<and> c < 9"
  by (auto simp: cells_def)

lemma distinct_cells: "distinct cells"
  by (simp add: cells_def distinct_product)

lemma length_cells: "length cells = 81"
  by (simp add: cells_def)

lemma wf_grid_nth: "wf_grid g \<longleftrightarrow> length g = 9 \<and> (\<forall>r<9. length (g ! r) = 9)"
  by (auto simp: wf_grid_def all_set_conv_all_nth)

lemma wf_row: "wf_grid g \<Longrightarrow> r < 9 \<Longrightarrow> length (g ! r) = 9"
  by (simp add: wf_grid_nth)

lemma wf_setCell: "wf_grid g \<Longrightarrow> wf_grid (setCell g r c v)"
  by (cases "r < length g") (auto simp: wf_grid_nth setCell_def nth_list_update)

lemma cellAt_setCell:
  assumes "wf_grid g" "r < 9" "c < 9"
  shows "cellAt (setCell g r c v) p = (if p = (r, c) then v else cellAt g p)"
proof (cases "fst p = r")
  case True
  with assms show ?thesis
    by (cases p) (auto simp: cellAt_def setCell_def wf_grid_def)
next
  case False
  then show ?thesis
    by (cases p) (auto simp: cellAt_def setCell_def)
qed

lemma grid_eqI:
  assumes "wf_grid g" "wf_grid h" "\<And>p. p \<in> set cells \<Longrightarrow> cellAt g p = cellAt h p"
  shows "g = h"
proof (rule nth_equalityI)
  show "length g = length h" using assms by (simp add: wf_grid_def)
next
  fix r assume "r < length g"
  then have r: "r < 9" using assms by (simp add: wf_grid_def)
  show "g ! r = h ! r"
  proof (rule nth_equalityI)
    show "length (g ! r) = length (h ! r)" using assms r by (simp add: wf_row)
  next
    fix c assume "c < length (g ! r)"
    then have "c < 9" using assms r by (simp add: wf_row)
    then have "(r, c) \<in> set cells" using r by (simp add: in_cells)
    from assms(3)[OF this] show "g ! r ! c = h ! r ! c" by (simp add: cellAt_def)
  qed
qed

lemma setCell_same: "wf_grid g \<Longrightarrow> r < 9 \<Longrightarrow> c < 9 \<Longrightarrow> cellAt g (r, c) = v \<Longrightarrow> setCell g r c v = g"
  by (rule grid_eqI) (auto simp: wf_setCell cellAt_setCell)

lemma setCell_setCell:
  "wf_grid g \<Longrightarrow> r < 9 \<Longrightarrow> c < 9 \<Longrightarrow> setCell (setCell g r c v) r c w = setCell g r c w"
  by (rule grid_eqI) (auto simp: wf_setCell cellAt_setCell)

lemma setCell_undo:
  "wf_grid g \<Longrightarrow> r < 9 \<Longrightarrow> c < 9 \<Longrightarrow> cellAt g (r, c) = w \<Longrightarrow> setCell (setCell g r c v) r c w = g"
  by (simp add: setCell_setCell setCell_same)


section \<open>Rows, columns and boxes\<close>

lemma units_in_cells: "\<forall>u\<in>set units. distinct u \<and> length u = 9 \<and> set u \<subseteq> set cells"
  by code_simp

lemma cell_in_units:
  "\<forall>p\<in>set cells.
     rowCells (fst p) \<in> set units \<and> p \<in> set (rowCells (fst p)) \<and>
     colCells (snd p) \<in> set units \<and> p \<in> set (colCells (snd p)) \<and>
     boxCells (fst p - fst p mod 3) (snd p - snd p mod 3) \<in> set units \<and>
     p \<in> set (boxCells (fst p - fst p mod 3) (snd p - snd p mod 3))"
  by code_simp

lemma units_of_cell:
  "\<forall>p\<in>set cells. \<forall>u\<in>set units. p \<in> set u \<longrightarrow>
     u = rowCells (fst p) \<or> u = colCells (snd p) \<or>
     u = boxCells (fst p - fst p mod 3) (snd p - snd p mod 3)"
  by code_simp

lemma unit_cells: "u \<in> set units \<Longrightarrow> p \<in> set u \<Longrightarrow> p \<in> set cells"
  using units_in_cells by blast

lemma unit_distinct: "u \<in> set units \<Longrightarrow> distinct u"
  using units_in_cells by blast

lemma usedInRow_iff: "usedInRow g row num \<longleftrightarrow> num \<in> set (unitVals g (rowCells row))"
  by (auto simp: usedInRow_def unitVals_def rowCells_def cellAt_def list_ex_iff)

lemma usedInCol_iff: "usedInCol g col num \<longleftrightarrow> num \<in> set (unitVals g (colCells col))"
  by (auto simp: usedInCol_def unitVals_def colCells_def cellAt_def list_ex_iff)

lemma upt3: "[0..<3] = [0, 1, 2]"
  by code_simp

lemma usedInBox_iff: "usedInBox g br bc num \<longleftrightarrow> num \<in> set (unitVals g (boxCells br bc))"
  by (auto simp: usedInBox_def unitVals_def boxCells_def cellAt_def upt3)

lemma isSafe_units:
  assumes "r < 9" "c < 9"
  shows "isSafe g r c d \<longleftrightarrow>
         cellAt g (r, c) = 0 \<and> (\<forall>u\<in>set units. (r, c) \<in> set u \<longrightarrow> d \<notin> set (unitVals g u))"
proof -
  have p: "(r, c) \<in> set cells" using assms by (simp add: in_cells)
  from cell_in_units[rule_format, OF p] units_of_cell[rule_format, OF p]
  show ?thesis
    by (auto simp: isSafe_def usedInRow_iff usedInCol_iff usedInBox_iff cellAt_def)
qed

lemma distinct_filter_map:
  "distinct u \<Longrightarrow>
   distinct (filter P (map f u)) \<longleftrightarrow>
   (\<forall>x\<in>set u. \<forall>y\<in>set u. x \<noteq> y \<longrightarrow> P (f x) \<longrightarrow> f x \<noteq> f y)"
proof -
  assume d: "distinct u"
  have "distinct (filter P (map f u)) \<longleftrightarrow> inj_on f (set (filter (P \<circ> f) u))"
    using d by (simp add: filter_map distinct_map)
  also have "\<dots> \<longleftrightarrow> (\<forall>x\<in>set u. \<forall>y\<in>set u. x \<noteq> y \<longrightarrow> P (f x) \<longrightarrow> f x \<noteq> f y)"
    unfolding inj_on_def by simp metis
  finally show ?thesis .
qed

lemma no_dup_iff:
  "no_dup g \<longleftrightarrow>
   (\<forall>u\<in>set units. \<forall>p\<in>set u. \<forall>q\<in>set u. p \<noteq> q \<longrightarrow> cellAt g p \<noteq> 0 \<longrightarrow> cellAt g p \<noteq> cellAt g q)"
  by (simp add: no_dup_def unitVals_def distinct_filter_map unit_distinct)

lemma isSafe_nonzero: "r < 9 \<Longrightarrow> c < 9 \<Longrightarrow> isSafe g r c d \<Longrightarrow> d \<noteq> 0"
  by (auto simp: isSafe_def usedInRow_def list_ex_iff)

lemma no_dup_place:
  assumes "wf_grid g" "r < 9" "c < 9" "no_dup g" "isSafe g r c d"
  shows "no_dup (setCell g r c d)"
  unfolding no_dup_iff
proof (intro ballI impI)
  fix u p q
  assume u: "u \<in> set units" and p: "p \<in> set u" and q: "q \<in> set u" and pq: "p \<noteq> q"
    and nz: "cellAt (setCell g r c d) p \<noteq> 0"
  have safe: "\<forall>u\<in>set units. (r, c) \<in> set u \<longrightarrow> d \<notin> set (unitVals g u)"
    using assms(2,3,5) by (simp add: isSafe_units)
  show "cellAt (setCell g r c d) p \<noteq> cellAt (setCell g r c d) q"
  proof (cases "p = (r, c)")
    case True
    then have "d \<notin> set (unitVals g u)" using safe u p by blast
    then have "cellAt g q \<noteq> d" using q by (auto simp: unitVals_def)
    then show ?thesis using True pq by (simp add: cellAt_setCell assms)
  next
    case False
    show ?thesis
    proof (cases "q = (r, c)")
      case True
      then have "d \<notin> set (unitVals g u)" using safe u q by blast
      then have "cellAt g p \<noteq> d" using p by (auto simp: unitVals_def)
      then show ?thesis using True pq by (simp add: cellAt_setCell assms)
    next
      case qF: False
      from assms(4) u p q pq nz False have "cellAt g p \<noteq> cellAt g q"
        by (simp add: no_dup_iff cellAt_setCell assms)
      then show ?thesis using False qF by (simp add: cellAt_setCell assms)
    qed
  qed
qed

lemma no_dup_clear:
  assumes "wf_grid g" "r < 9" "c < 9" "no_dup g"
  shows "no_dup (setCell g r c 0)"
  unfolding no_dup_iff
proof (intro ballI impI)
  fix u p q
  assume u: "u \<in> set units" and p: "p \<in> set u" and q: "q \<in> set u" and pq: "p \<noteq> q"
    and nz: "cellAt (setCell g r c 0) p \<noteq> 0"
  then have pF: "p \<noteq> (r, c)" by (auto simp: cellAt_setCell assms)
  show "cellAt (setCell g r c 0) p \<noteq> cellAt (setCell g r c 0) q"
  proof (cases "q = (r, c)")
    case True
    then show ?thesis using nz by (simp add: cellAt_setCell assms)
  next
    case False
    from assms(4) u p q pq nz pF have "cellAt g p \<noteq> cellAt g q"
      by (simp add: no_dup_iff cellAt_setCell assms)
    then show ?thesis using False pF by (simp add: cellAt_setCell assms)
  qed
qed

lemma in_range_setCell:
  "wf_grid g \<Longrightarrow> r < 9 \<Longrightarrow> c < 9 \<Longrightarrow> in_range g \<Longrightarrow> 0 \<le> v \<Longrightarrow> v \<le> 9 \<Longrightarrow> in_range (setCell g r c v)"
  by (simp add: in_range_def cellAt_setCell)

section \<open>State plumbing\<close>

lemma rand_grid: "rand st = (x, st1) \<Longrightarrow> grid st1 = grid st \<and> trace st1 = trace st"
  by (auto simp: rand_def)

lemma fisherYates_state:
  "fisherYates k out st = (out', st') \<Longrightarrow> grid st' = grid st \<and> trace st' = trace st"
proof (induction k arbitrary: out st)
  case 0
  then show ?case by simp
next
  case (Suc k)
  obtain x st1 where r: "rand st = (x, st1)" by (cases "rand st")
  with Suc.prems have "fisherYates k (swap out (Suc k) (x mod (Suc k + 1))) st1 = (out', st')"
    by simp
  from Suc.IH[OF this] rand_grid[OF r] show ?case by simp
qed

lemma swap_props:
  "i < length out \<Longrightarrow> j < length out \<Longrightarrow>
   length (swap out i j) = length out \<and> set (swap out i j) = set out \<and>
   (distinct (swap out i j) \<longleftrightarrow> distinct out)"
  by (simp add: swap_def set_swap distinct_swap)

lemma fisherYates_perm:
  "fisherYates k out st = (out', st') \<Longrightarrow> k < length out \<Longrightarrow>
   length out' = length out \<and> set out' = set out \<and> (distinct out' \<longleftrightarrow> distinct out)"
proof (induction k arbitrary: out st)
  case 0
  then show ?case by simp
next
  case (Suc k)
  obtain x st1 where r: "rand st = (x, st1)" by (cases "rand st")
  let ?j = "x mod (Suc k + 1)"
  have "?j < Suc k + 1" by simp
  with Suc.prems(2) have j: "?j < length out" by linarith
  from r Suc.prems have run: "fisherYates k (swap out (Suc k) ?j) st1 = (out', st')"
    by simp
  have sp: "length (swap out (Suc k) ?j) = length out \<and> set (swap out (Suc k) ?j) = set out \<and>
            (distinct (swap out (Suc k) ?j) \<longleftrightarrow> distinct out)"
    using swap_props[OF Suc.prems(2) j] .
  with Suc.prems(2) have "k < length (swap out (Suc k) ?j)" by simp
  from Suc.IH[OF run this] sp show ?case by simp
qed

lemma digits_list: "map (\<lambda>i. int i + 1) [0..<9] = [1, 2, 3, 4, 5, 6, 7, 8, 9]"
  by code_simp

lemma shuffledDigits_props:
  assumes "shuffledDigits st = (order, st1)"
  shows "set order = {1..9}" "distinct order" "grid st1 = grid st" "trace st1 = trace st"
proof -
  from assms have fy: "fisherYates 8 [1, 2, 3, 4, 5, 6, 7, 8, 9] st = (order, st1)"
    by (simp add: shuffledDigits_def digits_list)
  from fisherYates_perm[OF fy] have "set order = {1, 2, 3, 4, 5, 6, 7, 8, 9}" "distinct order"
    by simp_all
  moreover have "{1, 2, 3, 4, 5, 6, 7, 8, 9} = {1..9::int}" by auto
  ultimately show "set order = {1..9}" "distinct order" by simp_all
  from fisherYates_state[OF fy] show "grid st1 = grid st" "trace st1 = trace st" by simp_all
qed

lemma grid_assign [simp]: "grid (assign row col v st) = setCell (grid st) row col v"
  by (simp add: assign_def)

lemma trace_assign [simp]: "trace (assign row col v st) = trace st @ [setCell (grid st) row col v]"
  by (simp add: assign_def)

section \<open>The first empty cell\<close>

lemma find_Some_holds: "find P xs = Some x \<Longrightarrow> P x \<and> x \<in> set xs"
  by (induction xs) (auto split: if_splits)

lemma findUnassigned_None: "findUnassigned g = None \<longleftrightarrow> full g"
proof -
  have "set (List.product [0..<N] [0..<N]) = set cells" by (simp add: cells_def)
  then show ?thesis
    unfolding findUnassigned_def find_None_iff full_def cellAt_def
    by (simp only: split_def) blast
qed

lemma findUnassigned_Some:
  assumes "findUnassigned g = Some (row, col)"
  shows "row < 9" "col < 9" "cellAt g (row, col) = 0"
proof -
  from find_Some_holds[OF assms[unfolded findUnassigned_def]]
  have "g ! row ! col = 0" "(row, col) \<in> set (List.product [0..<N] [0..<N])"
    by simp_all
  then show "row < 9" "col < 9" "cellAt g (row, col) = 0"
    by (simp_all add: cellAt_def)
qed

lemma count_empty_card: "count_empty g = card {p \<in> set cells. cellAt g p = 0}"
proof -
  have "{p \<in> set cells. cellAt g p = 0} = {p. cellAt g p = 0} \<inter> set cells" by auto
  then show ?thesis by (simp add: count_empty_def distinct_length_filter distinct_cells)
qed

lemma count_empty_place:
  assumes "wf_grid g" "r < 9" "c < 9" "cellAt g (r, c) = 0" "d \<noteq> 0"
  shows "count_empty (setCell g r c d) < count_empty g"
proof -
  let ?new = "{p \<in> set cells. cellAt (setCell g r c d) p = 0}"
  let ?old = "{p \<in> set cells. cellAt g p = 0}"
  have "?new \<subseteq> ?old"
    using assms(5) by (simp add: cellAt_setCell assms(1-3) subset_iff)
  moreover have "(r, c) \<in> ?old" using assms by (simp add: in_cells)
  moreover have "(r, c) \<notin> ?new" using assms by (simp add: cellAt_setCell)
  ultimately have "?new \<subset> ?old" by blast
  then show ?thesis
    unfolding count_empty_card by (intro psubset_card_mono) auto
qed

lemma count_empty_le: "count_empty g \<le> 81"
  using length_filter_le[of "\<lambda>p. cellAt g p = 0" cells] by (simp add: count_empty_def length_cells)

lemma count_empty_filled: "count_empty g + count_filled g = 81"
  using sum_length_filter_compl[of "\<lambda>p. cellAt g p = 0" cells]
  by (simp add: count_empty_def count_filled_def length_cells)

lemma full_count_empty: "full g \<longleftrightarrow> count_empty g = 0"
  by (auto simp: full_def count_empty_def filter_empty_conv)

section \<open>Extension\<close>

lemma extends_refl: "extends g g"
  by (simp add: extends_def)

lemma extends_place:
  "wf_grid g \<Longrightarrow> r < 9 \<Longrightarrow> c < 9 \<Longrightarrow> cellAt g (r, c) = 0 \<Longrightarrow> extends (setCell g r c d) h \<Longrightarrow> extends g h"
proof -
  assume a: "wf_grid g" "r < 9" "c < 9" "cellAt g (r, c) = 0" "extends (setCell g r c d) h"
  show "extends g h"
    unfolding extends_def
  proof (intro ballI impI)
    fix p assume p: "p \<in> set cells" "cellAt g p \<noteq> 0"
    then have "p \<noteq> (r, c)" using a(4) by auto
    with a p show "cellAt h p = cellAt g p"
      by (auto simp: extends_def cellAt_setCell)
  qed
qed

section \<open>The fill routine is the solver\<close>

lemma fillDigits_eq:
  assumes "\<And>st. fillGrid fuel st = solveSudoku fuel st"
  shows "fillDigits fuel row col order st = solveDigits fuel row col order st"
  by (induction order arbitrary: st) (simp_all add: assms split: option.split)

lemma fillGrid_eq: "fillGrid fuel st = solveSudoku fuel st"
proof (induction fuel arbitrary: st)
  case 0
  show ?case by simp
next
  case (Suc fuel)
  have d: "\<And>row col order st. fillDigits fuel row col order st = solveDigits fuel row col order st"
    by (rule fillDigits_eq) (rule Suc.IH)
  show ?case by (simp add: d split: option.split prod.split)
qed

section \<open>The solver returns, and what it leaves in the grid\<close>

lemma solveDigits_frame:
  assumes IH: "\<And>st. wf_grid (grid st) \<Longrightarrow> count_empty (grid st) < fuel \<Longrightarrow>
      \<exists>ok st'. solveSudoku fuel st = Some (ok, st') \<and> solve_post (grid st) ok (grid st')"
    and "wf_grid (grid st)" "row < 9" "col < 9" "cellAt (grid st) (row, col) = 0"
      "count_empty (grid st) \<le> fuel"
  shows "\<exists>ok st'. solveDigits fuel row col order st = Some (ok, st') \<and>
                  solve_post (grid st) ok (grid st')"
  using assms(2-)
proof (induction order arbitrary: st)
  case Nil
  then show ?case by (intro exI[of _ False] exI[of _ st]) (simp add: solve_post_def)
next
  case (Cons num rest)
  show ?case
  proof (cases "isSafe (grid st) row col num")
    case True
    let ?g1 = "setCell (grid st) row col num"
    have nz: "num \<noteq> 0" using isSafe_nonzero[OF Cons.prems(2,3) True] .
    have wf1: "wf_grid ?g1" using Cons.prems(1) by (rule wf_setCell)
    have "count_empty ?g1 < count_empty (grid st)"
      using Cons.prems(1-4) nz by (rule count_empty_place)
    with Cons.prems(5) have lt: "count_empty ?g1 < fuel" by simp
    from IH[of "assign row col num st"] wf1 lt
    obtain ok st2 where run: "solveSudoku fuel (assign row col num st) = Some (ok, st2)"
      and post: "solve_post ?g1 ok (grid st2)" by auto
    show ?thesis
    proof (cases ok)
      case ok: True
      with post have "wf_grid (grid st2)" "full (grid st2)" "extends ?g1 (grid st2)"
        by (simp_all add: solve_post_def)
      then have "solve_post (grid st) True (grid st2)"
        using extends_place[OF Cons.prems(1-4)] by (simp add: solve_post_def)
      then show ?thesis using True run ok by auto
    next
      case nok: False
      with post have g2: "grid st2 = ?g1" by (simp add: solve_post_def)
      let ?st3 = "assign row col UNASSIGNED st2"
      have g3: "grid ?st3 = grid st"
        using g2 setCell_undo[OF Cons.prems(1-4)] by simp
      from Cons.IH[of ?st3] Cons.prems g3
      obtain ok' st' where "solveDigits fuel row col rest ?st3 = Some (ok', st')"
        "solve_post (grid st) ok' (grid st')" by auto
      then show ?thesis using True run nok by auto
    qed
  next
    case False
    from Cons.IH[OF Cons.prems] False show ?thesis by auto
  qed
qed

lemma solveSudoku_frame:
  "wf_grid (grid st) \<Longrightarrow> count_empty (grid st) < fuel \<Longrightarrow>
   \<exists>ok st'. solveSudoku fuel st = Some (ok, st') \<and> solve_post (grid st) ok (grid st')"
proof (induction fuel arbitrary: st)
  case 0
  then show ?case by simp
next
  case (Suc fuel)
  show ?case
  proof (cases "findUnassigned (grid st)")
    case None
    then have "full (grid st)" by (simp add: findUnassigned_None)
    then show ?thesis using None Suc.prems(1) by (auto simp: solve_post_def extends_refl)
  next
    case (Some p)
    obtain row col where p: "p = (row, col)" by (cases p)
    obtain order st1 where sd: "shuffledDigits st = (order, st1)" by (cases "shuffledDigits st")
    have g1: "grid st1 = grid st" using shuffledDigits_props(3)[OF sd] .
    from Some p have fu: "findUnassigned (grid st) = Some (row, col)" by simp
    note rc = findUnassigned_Some[OF fu]
    have "\<exists>ok st'. solveDigits fuel row col order st1 = Some (ok, st') \<and>
                    solve_post (grid st1) ok (grid st')"
      using Suc.prems rc g1 by (intro solveDigits_frame Suc.IH) simp_all
    then show ?thesis using fu sd g1 by auto
  qed
qed

section \<open>The counter returns and restores the grid\<close>

lemma countDigits_frame:
  assumes IH: "\<And>count st. wf_grid (grid st) \<Longrightarrow> count_empty (grid st) < fuel \<Longrightarrow>
      \<exists>count' st'. countSolutionsDFS fuel limit count st = Some (count', st') \<and> grid st' = grid st"
    and "wf_grid (grid st)" "row < 9" "col < 9" "cellAt (grid st) (row, col) = 0"
      "count_empty (grid st) \<le> fuel"
  shows "\<exists>count' st'. countDigits fuel limit row col order count st = Some (count', st') \<and>
                      grid st' = grid st"
  using assms(2-)
proof (induction order arbitrary: count st)
  case Nil
  then show ?case by simp
next
  case (Cons num rest)
  show ?case
  proof (cases "isSafe (grid st) row col num")
    case True
    let ?g1 = "setCell (grid st) row col num"
    have nz: "num \<noteq> 0" using isSafe_nonzero[OF Cons.prems(2,3) True] .
    have wf1: "wf_grid ?g1" using Cons.prems(1) by (rule wf_setCell)
    have "count_empty ?g1 < count_empty (grid st)"
      using Cons.prems(1-4) nz by (rule count_empty_place)
    with Cons.prems(5) have lt: "count_empty ?g1 < fuel" by simp
    from IH[of "assign row col num st" count] wf1 lt
    obtain count2 st2 where
      run: "countSolutionsDFS fuel limit count (assign row col num st) = Some (count2, st2)"
      and g2: "grid st2 = ?g1" by auto
    let ?st3 = "assign row col UNASSIGNED st2"
    have g3: "grid ?st3 = grid st"
      using g2 setCell_undo[OF Cons.prems(1-4)] by simp
    show ?thesis
    proof (cases "count2 \<ge> limit")
      case stop: True
      then show ?thesis using True run g3 by auto
    next
      case go: False
      from Cons.IH[of ?st3 count2] Cons.prems g3
      obtain count' st' where "countDigits fuel limit row col rest count2 ?st3 = Some (count', st')"
        "grid st' = grid st" by auto
      then show ?thesis using True run go by auto
    qed
  next
    case False
    from Cons.IH[OF Cons.prems] False show ?thesis by auto
  qed
qed

lemma countSolutionsDFS_frame:
  "wf_grid (grid st) \<Longrightarrow> count_empty (grid st) < fuel \<Longrightarrow>
   \<exists>count' st'. countSolutionsDFS fuel limit count st = Some (count', st') \<and> grid st' = grid st"
proof (induction fuel arbitrary: count st)
  case 0
  then show ?case by simp
next
  case (Suc fuel)
  show ?case
  proof (cases "count \<ge> limit")
    case True
    then show ?thesis by simp
  next
    case lim: False
    show ?thesis
    proof (cases "findUnassigned (grid st)")
      case None
      then show ?thesis using lim by simp
    next
      case (Some p)
      obtain row col where p: "p = (row, col)" by (cases p)
      obtain order st1 where sd: "shuffledDigits st = (order, st1)" by (cases "shuffledDigits st")
      have g1: "grid st1 = grid st" using shuffledDigits_props(3)[OF sd] .
      from Some p have fu: "findUnassigned (grid st) = Some (row, col)" by simp
      note rc = findUnassigned_Some[OF fu]
      have "\<exists>count' st'. countDigits fuel limit row col order count st1 = Some (count', st') \<and>
                      grid st' = grid st1"
        using Suc.prems rc g1 by (intro countDigits_frame Suc.IH) simp_all
      then show ?thesis using fu sd g1 lim by auto
    qed
  qed
qed

section \<open>The copy and clear loops\<close>

lemma cells_bounds: "p \<in> set cells \<Longrightarrow> fst p < 9 \<and> snd p < 9"
  by (cases p) (simp add: in_cells)

lemma fold_row_cells:
  assumes "wf_grid t" "r < 9" "n \<le> 9"
  shows "wf_grid (fold (\<lambda>c t. setCell t r c (f c)) [0..<n] t) \<and>
         (\<forall>p\<in>set cells. cellAt (fold (\<lambda>c t. setCell t r c (f c)) [0..<n] t) p =
            (if fst p = r \<and> snd p < n then f (snd p) else cellAt t p))"
  using assms(3)
proof (induction n)
  case 0
  then show ?case using assms(1) by simp
next
  case (Suc n)
  let ?t = "fold (\<lambda>c t. setCell t r c (f c)) [0..<n] t"
  from Suc have wf: "wf_grid ?t"
    and old: "\<forall>p\<in>set cells. cellAt ?t p = (if fst p = r \<and> snd p < n then f (snd p) else cellAt t p)"
    by simp_all
  have n: "n < 9" using Suc.prems by simp
  have step: "fold (\<lambda>c t. setCell t r c (f c)) [0..<Suc n] t = setCell ?t r n (f n)"
    by simp
  show ?case
    unfolding step
  proof (intro conjI ballI)
    show "wf_grid (setCell ?t r n (f n))" using wf by (rule wf_setCell)
  next
    fix p assume p: "p \<in> set cells"
    show "cellAt (setCell ?t r n (f n)) p =
          (if fst p = r \<and> snd p < Suc n then f (snd p) else cellAt t p)"
      using old[rule_format, OF p]
      by (cases p) (auto simp: cellAt_setCell[OF wf assms(2) n] less_Suc_eq)
  qed
qed

lemma fold_rows_cells:
  assumes "wf_grid t" "m \<le> 9"
  shows "wf_grid (fold (\<lambda>r t. fold (\<lambda>c t. setCell t r c (f r c)) [0..<N] t) [0..<m] t) \<and>
         (\<forall>p\<in>set cells.
            cellAt (fold (\<lambda>r t. fold (\<lambda>c t. setCell t r c (f r c)) [0..<N] t) [0..<m] t) p =
            (if fst p < m then f (fst p) (snd p) else cellAt t p))"
  using assms(2)
proof (induction m)
  case 0
  then show ?case using assms(1) by simp
next
  case (Suc m)
  let ?t = "fold (\<lambda>r t. fold (\<lambda>c t. setCell t r c (f r c)) [0..<N] t) [0..<m] t"
  from Suc have wf: "wf_grid ?t"
    and old: "\<forall>p\<in>set cells. cellAt ?t p = (if fst p < m then f (fst p) (snd p) else cellAt t p)"
    by simp_all
  have m: "m < 9" using Suc.prems by simp
  have step: "fold (\<lambda>r t. fold (\<lambda>c t. setCell t r c (f r c)) [0..<N] t) [0..<Suc m] t =
              fold (\<lambda>c t. setCell t m c (f m c)) [0..<N] ?t"
    by simp
  note row = fold_row_cells[OF wf m order_refl, of "f m"]
  show ?case
    unfolding step
  proof (intro conjI ballI)
    show "wf_grid (fold (\<lambda>c t. setCell t m c (f m c)) [0..<N] ?t)" using row by simp
  next
    fix p assume p: "p \<in> set cells"
    then have "snd p < 9" by (simp add: cells_bounds)
    then show "cellAt (fold (\<lambda>c t. setCell t m c (f m c)) [0..<N] ?t) p =
          (if fst p < Suc m then f (fst p) (snd p) else cellAt t p)"
      using old[rule_format, OF p] row[THEN conjunct2, rule_format, OF p]
      by (auto simp: less_Suc_eq)
  qed
qed

lemma wf_replicate: "wf_grid (replicate N (replicate N v))"
  by (simp add: wf_grid_def)

lemma cellAt_replicate: "p \<in> set cells \<Longrightarrow> cellAt (replicate N (replicate N v)) p = v"
  by (cases p) (simp add: cellAt_def in_cells)

lemma copyCells_eq:
  assumes "wf_grid src" "wf_grid dst"
  shows "copyCells src dst = src"
proof (rule grid_eqI)
  note f = fold_rows_cells[OF assms(2) order_refl, of "\<lambda>r c. src ! r ! c"]
  show "wf_grid (copyCells src dst)" using f by (simp add: copyCells_def)
  show "wf_grid src" by fact
  fix p assume p: "p \<in> set cells"
  then have "fst p < 9" by (simp add: cells_bounds)
  then show "cellAt (copyCells src dst) p = cellAt src p"
    using f[THEN conjunct2, rule_format, OF p] by (simp add: copyCells_def cellAt_def)
qed

lemma clearCells_eq:
  assumes "wf_grid out"
  shows "clearCells out = replicate N (replicate N UNASSIGNED)"
proof (rule grid_eqI)
  note f = fold_rows_cells[OF assms order_refl, of "\<lambda>r c. UNASSIGNED"]
  show "wf_grid (clearCells out)" using f by (simp add: clearCells_def)
  show "wf_grid (replicate N (replicate N UNASSIGNED))" by (rule wf_replicate)
  fix p assume p: "p \<in> set cells"
  then have "fst p < 9" by (simp add: cells_bounds)
  then show "cellAt (clearCells out) p = cellAt (replicate N (replicate N UNASSIGNED)) p"
    using f[THEN conjunct2, rule_format, OF p] by (simp add: clearCells_def cellAt_replicate[OF p])
qed

lemma countSolutions_DFS:
  assumes "wf_grid (grid st)"
  shows "countSolutions fuel limit st =
         (case countSolutionsDFS fuel limit 0 st of
            None \<Rightarrow> None
          | Some (cnt, st') \<Rightarrow> Some (cnt, st'\<lparr>grid := grid st\<rparr>))"
  by (simp add: countSolutions_def copyCells_eq[OF assms wf_replicate])

section \<open>Solved grids\<close>

lemma distinct_count_one: "distinct xs \<Longrightarrow> x \<in> set xs \<Longrightarrow> count_list xs x = 1"
  by (induction xs) auto

lemma card_digits: "card {1..9::int} = 9"
  by simp

lemma each_once_iff:
  assumes "length xs = 9"
  shows "each_once xs \<longleftrightarrow> distinct xs \<and> set xs = {1..9}"
proof
  assume e: "each_once xs"
  have sub: "{1..9} \<subseteq> set xs"
  proof
    fix d :: int assume "d \<in> {1..9}"
    with e have "count_list xs d = 1" by (simp add: each_once_def)
    then show "d \<in> set xs" using count_list_0_iff[of xs d] by auto
  qed
  then have "card {1..9::int} \<le> card (set xs)" by (intro card_mono) simp_all
  moreover have "card (set xs) \<le> length xs" by (rule card_length)
  ultimately have c: "card (set xs) = length xs" "card (set xs) = card {1..9::int}"
    using assms by simp_all
  from c(1) have "distinct xs" by (rule card_distinct)
  moreover have "{1..9} = set xs"
    using sub c(2) by (intro card_subset_eq) simp_all
  ultimately show "distinct xs \<and> set xs = {1..9}" by simp
next
  assume "distinct xs \<and> set xs = {1..9}"
  then show "each_once xs" by (simp add: each_once_def distinct_count_one)
qed

lemma length_unitVals: "u \<in> set units \<Longrightarrow> length (unitVals g u) = 9"
  using units_in_cells by (simp add: unitVals_def)

lemma cell_row_unit: "p \<in> set cells \<Longrightarrow> rowCells (fst p) \<in> set units \<and> p \<in> set (rowCells (fst p))"
  using cell_in_units by blast

lemma solved_unit:
  assumes "solved g" "u \<in> set units"
  shows "distinct (unitVals g u)" "set (unitVals g u) = {1..9}"
proof -
  from assms have "each_once (unitVals g u)" by (simp add: solved_def)
  then show "distinct (unitVals g u)" "set (unitVals g u) = {1..9}"
    using each_once_iff[OF length_unitVals[OF assms(2)]] by simp_all
qed

lemma solved_range:
  assumes "solved g" "p \<in> set cells"
  shows "1 \<le> cellAt g p" "cellAt g p \<le> 9"
proof -
  from cell_row_unit[OF assms(2)] have u: "rowCells (fst p) \<in> set units" "p \<in> set (rowCells (fst p))"
    by simp_all
  from u(2) have "cellAt g p \<in> set (unitVals g (rowCells (fst p)))"
    unfolding unitVals_def by (simp only: set_map image_eqI)
  then have "cellAt g p \<in> {1..9}" using solved_unit(2)[OF assms(1) u(1)] by simp
  then show "1 \<le> cellAt g p" "cellAt g p \<le> 9" by simp_all
qed

lemma solved_inj:
  assumes "solved g" "u \<in> set units" "p \<in> set u" "q \<in> set u" "cellAt g p = cellAt g q"
  shows "p = q"
proof -
  from solved_unit(1)[OF assms(1,2)] have "inj_on (cellAt g) (set u)"
    by (simp add: unitVals_def distinct_map)
  then show ?thesis using assms(3-5) by (simp add: inj_on_def)
qed

lemma solved_iff:
  assumes "wf_grid g"
  shows "solved g \<longleftrightarrow> full g \<and> in_range g \<and> no_dup g"
proof
  assume s: "solved g"
  have "full g" using s by (simp add: solved_def)
  moreover have "in_range g"
    unfolding in_range_def using solved_range[OF s] by force
  moreover have "no_dup g"
    unfolding no_dup_def using solved_unit(1)[OF s] by (simp add: distinct_filter)
  ultimately show "full g \<and> in_range g \<and> no_dup g" by simp
next
  assume a: "full g \<and> in_range g \<and> no_dup g"
  have "each_once (unitVals g u)" if u: "u \<in> set units" for u
  proof -
    have cells: "\<And>p. p \<in> set u \<Longrightarrow> p \<in> set cells" using u by (rule unit_cells)
    have nz: "\<forall>v\<in>set (unitVals g u). v \<noteq> 0"
      using a cells by (auto simp: unitVals_def full_def)
    then have "filter (\<lambda>v. v \<noteq> 0) (unitVals g u) = unitVals g u" by (simp add: filter_id_conv)
    with a u have d: "distinct (unitVals g u)" by (auto simp: no_dup_def)
    have sub: "set (unitVals g u) \<subseteq> {1..9}"
    proof
      fix v assume v: "v \<in> set (unitVals g u)"
      then obtain p where "p \<in> set u" "v = cellAt g p" by (auto simp: unitVals_def)
      with a cells have "0 \<le> v" "v \<le> 9" by (auto simp: in_range_def)
      moreover from nz v have "v \<noteq> 0" by simp
      ultimately show "v \<in> {1..9}" by simp
    qed
    have "card (set (unitVals g u)) = 9"
      using distinct_card[OF d] length_unitVals[OF u] by simp
    then have "set (unitVals g u) = {1..9}"
      using sub by (intro card_subset_eq) simp_all
    with d show ?thesis using each_once_iff[OF length_unitVals[OF u]] by simp
  qed
  with a assms show "solved g" by (simp add: solved_def)
qed

lemma solved_valid: "solved g \<Longrightarrow> valid g"
  using solved_iff[of g] by (auto simp: valid_def solved_def)

lemma valid_full_solved: "valid g \<Longrightarrow> full g \<Longrightarrow> solved g"
  using solved_iff[of g] by (auto simp: valid_def)

lemma valid_place:
  "valid g \<Longrightarrow> r < 9 \<Longrightarrow> c < 9 \<Longrightarrow> isSafe g r c d \<Longrightarrow> 1 \<le> d \<Longrightarrow> d \<le> 9 \<Longrightarrow>
   valid (setCell g r c d)"
  by (simp add: valid_def wf_setCell in_range_setCell no_dup_place)

lemma valid_clear: "valid g \<Longrightarrow> r < 9 \<Longrightarrow> c < 9 \<Longrightarrow> valid (setCell g r c 0)"
  by (simp add: valid_def wf_setCell in_range_setCell no_dup_clear)

section \<open>Completions\<close>

lemma completion_safe:
  assumes "solved h" "extends g h" "r < 9" "c < 9" "cellAt g (r, c) = 0"
  shows "isSafe g r c (cellAt h (r, c))"
  unfolding isSafe_units[OF assms(3,4)]
proof (intro conjI ballI impI)
  show "cellAt g (r, c) = 0" by fact
next
  fix u assume u: "u \<in> set units" and rc: "(r, c) \<in> set u"
  have pc: "(r, c) \<in> set cells" using assms(3,4) by (simp add: in_cells)
  show "cellAt h (r, c) \<notin> set (unitVals g u)"
  proof
    assume "cellAt h (r, c) \<in> set (unitVals g u)"
    then obtain q where q: "q \<in> set u" "cellAt g q = cellAt h (r, c)"
      by (auto simp: unitVals_def)
    from solved_range(1)[OF assms(1) pc] q(2) have "cellAt g q \<noteq> 0" by simp
    moreover have "q \<in> set cells" using u q(1) by (rule unit_cells)
    ultimately have "cellAt h q = cellAt g q" using assms(2) by (simp add: extends_def)
    with q(2) have "cellAt h q = cellAt h (r, c)" by simp
    from solved_inj[OF assms(1) u q(1) rc this] have "q = (r, c)" .
    with \<open>cellAt g q \<noteq> 0\<close> assms(5) show False by simp
  qed
qed

lemma extends_place_iff:
  assumes "wf_grid g" "r < 9" "c < 9" "cellAt g (r, c) = 0" "d \<noteq> 0"
  shows "extends (setCell g r c d) h \<longleftrightarrow> extends g h \<and> cellAt h (r, c) = d"
proof
  assume e: "extends (setCell g r c d) h"
  have "(r, c) \<in> set cells" using assms(2,3) by (simp add: in_cells)
  with e assms(5) have "cellAt h (r, c) = d"
    by (simp add: extends_def cellAt_setCell[OF assms(1-3)])
  with extends_place[OF assms(1-4) e] show "extends g h \<and> cellAt h (r, c) = d" by simp
next
  assume "extends g h \<and> cellAt h (r, c) = d"
  then show "extends (setCell g r c d) h"
    by (simp add: extends_def cellAt_setCell[OF assms(1-3)])
qed

lemma completions_place:
  assumes "wf_grid g" "r < 9" "c < 9" "cellAt g (r, c) = 0" "d \<noteq> 0"
  shows "completions (setCell g r c d) = {h \<in> completions g. cellAt h (r, c) = d}"
  by (auto simp: completions_def extends_place_iff[OF assms])

lemma completions_unsafe:
  assumes "wf_grid g" "r < 9" "c < 9" "cellAt g (r, c) = 0" "d \<noteq> 0" "\<not> isSafe g r c d"
  shows "completions (setCell g r c d) = {}"
proof -
  have False if "h \<in> completions g" "cellAt h (r, c) = d" for h
    using completion_safe[of h g r c] that assms by (simp add: completions_def)
  then show ?thesis unfolding completions_place[OF assms(1-5)] by blast
qed

lemma completions_full:
  assumes "valid g" "full g"
  shows "completions g = {g}"
proof -
  have wf: "wf_grid g" using assms(1) by (simp add: valid_def)
  have "h = g" if h: "solved h" "extends g h" for h
  proof (rule grid_eqI)
    show "wf_grid h" using h(1) by (simp add: solved_def)
    show "wf_grid g" by fact
    fix p assume "p \<in> set cells"
    with h(2) assms(2) show "cellAt h p = cellAt g p" by (simp add: extends_def full_def)
  qed
  moreover have "solved g" using assms by (rule valid_full_solved)
  ultimately show ?thesis by (auto simp: completions_def extends_refl)
qed

lemma finite_completions: "finite (completions g)"
proof -
  let ?rows = "{row. set row \<subseteq> {0..9::int} \<and> length row = 9}"
  have "finite ?rows" by (rule finite_lists_length_eq) simp
  then have fin: "finite {h. set h \<subseteq> ?rows \<and> length h = 9}" by (rule finite_lists_length_eq)
  have "completions g \<subseteq> {h. set h \<subseteq> ?rows \<and> length h = 9}"
  proof
    fix h assume "h \<in> completions g"
    then have s: "solved h" by (simp add: completions_def)
    then have wf: "wf_grid h" by (simp add: solved_def)
    have "set row \<subseteq> {0..9}" if row: "row \<in> set h" for row
    proof
      fix v assume v: "v \<in> set row"
      from row obtain r where r: "r < length h" "row = h ! r" by (auto simp: in_set_conv_nth)
      from v obtain c where c: "c < length row" "v = row ! c" by (auto simp: in_set_conv_nth)
      have r9: "r < 9" using r wf by (simp add: wf_grid_def)
      then have "c < 9" using c r wf_row[OF wf r9] by simp
      with r9 have "(r, c) \<in> set cells" by (simp add: in_cells)
      from solved_range[OF s this] r c show "v \<in> {0..9}" by (simp add: cellAt_def)
    qed
    with wf show "h \<in> {h. set h \<subseteq> ?rows \<and> length h = 9}" by (auto simp: wf_grid_def)
  qed
  then show ?thesis using fin by (rule finite_subset)
qed

section \<open>Case analysis of a run\<close>

lemma solveSudoku_SucE:
  assumes "solveSudoku (Suc fuel) st = Some (ok, st')"
  obtains (filled) "findUnassigned (grid st) = None" "ok" "st' = st"
  | (search) row col order st1 where
      "findUnassigned (grid st) = Some (row, col)" "shuffledDigits st = (order, st1)"
      "solveDigits fuel row col order st1 = Some (ok, st')"
  using assms by (auto split: option.splits prod.splits)

lemma solveDigits_ConsE:
  assumes "solveDigits fuel row col (num # rest) st = Some (ok, st')"
  obtains (unsafe) "\<not> isSafe (grid st) row col num"
      "solveDigits fuel row col rest st = Some (ok, st')"
  | (found) "isSafe (grid st) row col num"
      "solveSudoku fuel (assign row col num st) = Some (True, st')" "ok"
  | (backtrack) st2 where "isSafe (grid st) row col num"
      "solveSudoku fuel (assign row col num st) = Some (False, st2)"
      "solveDigits fuel row col rest (assign row col UNASSIGNED st2) = Some (ok, st')"
  using assms by (auto split: if_splits option.splits)

lemma countSolutionsDFS_SucE:
  assumes "countSolutionsDFS (Suc fuel) limit count st = Some (count', st')"
  obtains (cut) "count \<ge> limit" "count' = count" "st' = st"
  | (leaf) "\<not> count \<ge> limit" "findUnassigned (grid st) = None" "count' = count + 1" "st' = st"
  | (search) row col order st1 where "\<not> count \<ge> limit"
      "findUnassigned (grid st) = Some (row, col)" "shuffledDigits st = (order, st1)"
      "countDigits fuel limit row col order count st1 = Some (count', st')"
  using assms by (auto split: if_splits option.splits prod.splits)

lemma countDigits_ConsE:
  assumes "countDigits fuel limit row col (num # rest) count st = Some (count', st')"
  obtains (unsafe) "\<not> isSafe (grid st) row col num"
      "countDigits fuel limit row col rest count st = Some (count', st')"
  | (stop) st2 where "isSafe (grid st) row col num"
      "countSolutionsDFS fuel limit count (assign row col num st) = Some (count', st2)"
      "count' \<ge> limit" "st' = assign row col UNASSIGNED st2"
  | (continue) count2 st2 where "isSafe (grid st) row col num"
      "countSolutionsDFS fuel limit count (assign row col num st) = Some (count2, st2)"
      "\<not> count2 \<ge> limit"
      "countDigits fuel limit row col rest count2 (assign row col UNASSIGNED st2) = Some (count', st')"
  using assms by (auto split: if_splits option.splits)

lemma solveSudoku_post:
  assumes "wf_grid (grid st)" "count_empty (grid st) < fuel" "solveSudoku fuel st = Some (ok, st')"
  shows "solve_post (grid st) ok (grid st')"
  using solveSudoku_frame[OF assms(1,2)] assms(3) by auto

lemma countSolutionsDFS_post:
  assumes "wf_grid (grid st)" "count_empty (grid st) < fuel"
    "countSolutionsDFS fuel limit count st = Some (count', st')"
  shows "grid st' = grid st"
  using countSolutionsDFS_frame[OF assms(1,2), of limit count] assms(3) by auto

text \<open>The state after a placement that the recursive call did not keep.\<close>

lemma backtrack_grid:
  assumes "wf_grid (grid st)" "row < 9" "col < 9" "cellAt (grid st) (row, col) = 0"
    "count_empty (grid st) \<le> fuel" "isSafe (grid st) row col num"
    "solveSudoku fuel (assign row col num st) = Some (False, st2)"
  shows "grid (assign row col UNASSIGNED st2) = grid st"
proof -
  let ?g1 = "setCell (grid st) row col num"
  have nz: "num \<noteq> 0" using isSafe_nonzero[OF assms(2,3,6)] .
  have "count_empty ?g1 < count_empty (grid st)"
    using assms(1-4) nz by (rule count_empty_place)
  with assms(5) have lt: "count_empty (grid (assign row col num st)) < fuel" by simp
  have wf1: "wf_grid (grid (assign row col num st))" using assms(1) by (simp add: wf_setCell)
  have "solve_post (grid (assign row col num st)) False (grid st2)"
    using wf1 lt assms(7) by (rule solveSudoku_post)
  then have "grid st2 = ?g1" by (simp add: solve_post_def)
  then show ?thesis using setCell_undo[OF assms(1-4)] by simp
qed

lemma place_fuel:
  assumes "wf_grid (grid st)" "row < 9" "col < 9" "cellAt (grid st) (row, col) = 0"
    "count_empty (grid st) \<le> fuel" "isSafe (grid st) row col num"
  shows "wf_grid (grid (assign row col num st))"
    "count_empty (grid (assign row col num st)) < fuel"
proof -
  have nz: "num \<noteq> 0" using isSafe_nonzero[OF assms(2,3,6)] .
  have "count_empty (setCell (grid st) row col num) < count_empty (grid st)"
    using assms(1-4) nz by (rule count_empty_place)
  with assms(5) show "count_empty (grid (assign row col num st)) < fuel" by simp
  show "wf_grid (grid (assign row col num st))" using assms(1) by (simp add: wf_setCell)
qed

section \<open>A successful search ends in a solved grid\<close>

lemma solveDigits_valid:
  assumes IH: "\<And>st ok st'. valid (grid st) \<Longrightarrow> solveSudoku fuel st = Some (ok, st') \<Longrightarrow>
      valid (grid st')"
    and "valid (grid st)" "row < 9" "col < 9" "set order \<subseteq> {1..9}"
      "solveDigits fuel row col order st = Some (ok, st')"
  shows "valid (grid st')"
  using assms(2-)
proof (induction order arbitrary: st)
  case Nil
  then show ?case by simp
next
  case (Cons num rest)
  from Cons.prems(4) have num: "1 \<le> num" "num \<le> 9" and rest: "set rest \<subseteq> {1..9}"
    by simp_all
  from Cons.prems(5) show ?case
  proof (cases rule: solveDigits_ConsE)
    case unsafe
    from Cons.IH[OF Cons.prems(1-3) rest unsafe(2)] show ?thesis .
  next
    case found
    have "valid (grid (assign row col num st))"
      using valid_place[OF Cons.prems(1-3) found(1) num] by simp
    from IH[OF this found(2)] show ?thesis .
  next
    case (backtrack st2)
    have "valid (grid (assign row col num st))"
      using valid_place[OF Cons.prems(1-3) backtrack(1) num] by simp
    from IH[OF this backtrack(2)] have "valid (grid st2)" .
    then have "valid (grid (assign row col UNASSIGNED st2))"
      using valid_clear[OF _ Cons.prems(2,3)] by simp
    from Cons.IH[OF this Cons.prems(2,3) rest backtrack(3)] show ?thesis .
  qed
qed

lemma solveSudoku_valid:
  "valid (grid st) \<Longrightarrow> solveSudoku fuel st = Some (ok, st') \<Longrightarrow> valid (grid st')"
proof (induction fuel arbitrary: st ok st')
  case 0
  then show ?case by simp
next
  case (Suc fuel)
  from Suc.prems(2) show ?case
  proof (cases rule: solveSudoku_SucE)
    case filled
    with Suc.prems(1) show ?thesis by simp
  next
    case (search row col order st1)
    note rc = findUnassigned_Some[OF search(1)]
    note sd = shuffledDigits_props[OF search(2)]
    have v1: "valid (grid st1)" using Suc.prems(1) sd(3) by simp
    have ord: "set order \<subseteq> {1..9}" using sd(1) by simp
    show ?thesis
      by (rule solveDigits_valid[OF Suc.IH v1 rc(1,2) ord search(3)])
  qed
qed

lemma solveSudoku_sound:
  assumes "valid (grid st)" "count_empty (grid st) < fuel" "solveSudoku fuel st = Some (True, st')"
  shows "solved (grid st')" "grid st' \<in> completions (grid st)"
proof -
  have wf: "wf_grid (grid st)" using assms(1) by (simp add: valid_def)
  from solveSudoku_post[OF wf assms(2,3)]
  have f: "full (grid st')" and e: "extends (grid st) (grid st')" by (simp_all add: solve_post_def)
  from solveSudoku_valid[OF assms(1,3)] f show "solved (grid st')" by (rule valid_full_solved)
  with e show "grid st' \<in> completions (grid st)" by (simp add: completions_def)
qed

section \<open>The search finds a completion when there is one\<close>

lemma solveDigits_complete:
  assumes IH: "\<And>st ok st'. wf_grid (grid st) \<Longrightarrow> count_empty (grid st) < fuel \<Longrightarrow>
      h \<in> completions (grid st) \<Longrightarrow> solveSudoku fuel st = Some (ok, st') \<Longrightarrow> ok"
    and "wf_grid (grid st)" "row < 9" "col < 9" "cellAt (grid st) (row, col) = 0"
      "count_empty (grid st) \<le> fuel" "h \<in> completions (grid st)"
      "cellAt h (row, col) \<in> set order"
      "solveDigits fuel row col order st = Some (ok, st')"
  shows "ok"
  using assms(2-)
proof (induction order arbitrary: st)
  case Nil
  then show ?case by simp
next
  case (Cons num rest)
  have safe: "isSafe (grid st) row col (cellAt h (row, col))"
    using Cons.prems(6) completion_safe[OF _ _ Cons.prems(2-4)] by (simp add: completions_def)
  from Cons.prems(8) show ?case
  proof (cases rule: solveDigits_ConsE)
    case unsafe
    with safe have "cellAt h (row, col) \<noteq> num" by auto
    with Cons.prems(7) have "cellAt h (row, col) \<in> set rest" by simp
    from Cons.IH[OF Cons.prems(1-6) this unsafe(2)] show ?thesis .
  next
    case found
    then show ?thesis by simp
  next
    case (backtrack st2)
    note pf = place_fuel[OF Cons.prems(1-5) backtrack(1)]
    have nz: "num \<noteq> 0" using isSafe_nonzero[OF Cons.prems(2,3) backtrack(1)] .
    have "cellAt h (row, col) \<noteq> num"
    proof
      assume "cellAt h (row, col) = num"
      with Cons.prems(6) have "h \<in> completions (grid (assign row col num st))"
        by (simp add: completions_place[OF Cons.prems(1-4) nz])
      from IH[OF pf this backtrack(2)] show False by simp
    qed
    with Cons.prems(7) have in_rest: "cellAt h (row, col) \<in> set rest" by simp
    have g3: "grid (assign row col UNASSIGNED st2) = grid st"
      using backtrack_grid[OF Cons.prems(1-5) backtrack(1,2)] .
    show ?thesis
      using Cons.IH[of "assign row col UNASSIGNED st2"] Cons.prems(1-6) in_rest backtrack(3)
      unfolding g3 by blast
  qed
qed

lemma solveSudoku_complete:
  "wf_grid (grid st) \<Longrightarrow> count_empty (grid st) < fuel \<Longrightarrow> h \<in> completions (grid st) \<Longrightarrow>
   solveSudoku fuel st = Some (ok, st') \<Longrightarrow> ok"
proof (induction fuel arbitrary: st ok st')
  case 0
  then show ?case by simp
next
  case (Suc fuel)
  from Suc.prems(4) show ?case
  proof (cases rule: solveSudoku_SucE)
    case filled
    then show ?thesis by simp
  next
    case (search row col order st1)
    note rc = findUnassigned_Some[OF search(1)]
    note sd = shuffledDigits_props[OF search(2)]
    have pc: "(row, col) \<in> set cells" using rc by (simp add: in_cells)
    have "solved h" using Suc.prems(3) by (simp add: completions_def)
    from solved_range[OF this pc] sd(1) have ord: "cellAt h (row, col) \<in> set order" by simp
    have wf1: "wf_grid (grid st1)" and e1: "cellAt (grid st1) (row, col) = 0"
      and c1: "count_empty (grid st1) \<le> fuel" and h1: "h \<in> completions (grid st1)"
      using Suc.prems(1-3) rc(3) sd(3) by simp_all
    show ?thesis
      by (rule solveDigits_complete[OF Suc.IH wf1 rc(1,2) e1 c1 h1 ord search(3)])
  qed
qed

section \<open>The history of a search\<close>

lemma steps_refl: "trace st' = trace st \<Longrightarrow> steps_no_dup st st'"
  by (simp add: steps_no_dup_def)

lemma steps_trans: "steps_no_dup a b \<Longrightarrow> steps_no_dup b c \<Longrightarrow> steps_no_dup a c"
proof -
  assume "steps_no_dup a b" "steps_no_dup b c"
  then obtain n1 n2 where "trace b = trace a @ n1" "\<forall>x\<in>set n1. wf_grid x \<and> no_dup x"
    "trace c = trace b @ n2" "\<forall>x\<in>set n2. wf_grid x \<and> no_dup x"
    unfolding steps_no_dup_def by blast
  then have "trace c = trace a @ (n1 @ n2)" "\<forall>x\<in>set (n1 @ n2). wf_grid x \<and> no_dup x"
    by auto
  then show ?thesis unfolding steps_no_dup_def by blast
qed

lemma steps_assign:
  "wf_grid (grid (assign row col v st)) \<Longrightarrow> no_dup (grid (assign row col v st)) \<Longrightarrow>
   steps_no_dup st (assign row col v st)"
  by (simp add: steps_no_dup_def)

lemma solveDigits_trace:
  assumes IH: "\<And>st ok st'. wf_grid (grid st) \<Longrightarrow> count_empty (grid st) < fuel \<Longrightarrow>
      no_dup (grid st) \<Longrightarrow> solveSudoku fuel st = Some (ok, st') \<Longrightarrow> steps_no_dup st st'"
    and "wf_grid (grid st)" "row < 9" "col < 9" "cellAt (grid st) (row, col) = 0"
      "count_empty (grid st) \<le> fuel" "no_dup (grid st)"
      "solveDigits fuel row col order st = Some (ok, st')"
  shows "steps_no_dup st st'"
  using assms(2-)
proof (induction order arbitrary: st)
  case Nil
  then show ?case by (simp add: steps_refl)
next
  case (Cons num rest)
  from Cons.prems(7) show ?case
  proof (cases rule: solveDigits_ConsE)
    case unsafe
    from Cons.IH[OF Cons.prems(1-6) unsafe(2)] show ?thesis .
  next
    case found
    note pf = place_fuel[OF Cons.prems(1-5) found(1)]
    have nd: "no_dup (grid (assign row col num st))"
      using no_dup_place[OF Cons.prems(1-3,6) found(1)] by simp
    from steps_assign[OF pf(1) nd] IH[OF pf nd found(2)] show ?thesis by (rule steps_trans)
  next
    case (backtrack st2)
    note pf = place_fuel[OF Cons.prems(1-5) backtrack(1)]
    have nd: "no_dup (grid (assign row col num st))"
      using no_dup_place[OF Cons.prems(1-3,6) backtrack(1)] by simp
    have g3: "grid (assign row col UNASSIGNED st2) = grid st"
      using backtrack_grid[OF Cons.prems(1-5) backtrack(1,2)] .
    have s1: "steps_no_dup st st2"
      using steps_assign[OF pf(1) nd] IH[OF pf nd backtrack(2)] by (rule steps_trans)
    have s2: "steps_no_dup st2 (assign row col UNASSIGNED st2)"
      using Cons.prems(1,6) by (intro steps_assign) (simp_all only: g3)
    have s3: "steps_no_dup (assign row col UNASSIGNED st2) st'"
      using Cons.IH[of "assign row col UNASSIGNED st2"] Cons.prems(1-6) backtrack(3)
      unfolding g3 by blast
    from steps_trans[OF s1 steps_trans[OF s2 s3]] show ?thesis .
  qed
qed

lemma solveSudoku_trace:
  "wf_grid (grid st) \<Longrightarrow> count_empty (grid st) < fuel \<Longrightarrow> no_dup (grid st) \<Longrightarrow>
   solveSudoku fuel st = Some (ok, st') \<Longrightarrow> steps_no_dup st st'"
proof (induction fuel arbitrary: st ok st')
  case 0
  then show ?case by simp
next
  case (Suc fuel)
  from Suc.prems(4) show ?case
  proof (cases rule: solveSudoku_SucE)
    case filled
    then show ?thesis by (simp add: steps_refl)
  next
    case (search row col order st1)
    note rc = findUnassigned_Some[OF search(1)]
    note sd = shuffledDigits_props[OF search(2)]
    have wf1: "wf_grid (grid st1)" and e1: "cellAt (grid st1) (row, col) = 0"
      and c1: "count_empty (grid st1) \<le> fuel" and n1: "no_dup (grid st1)"
      using Suc.prems(1-3) rc(3) sd(3) by simp_all
    have "steps_no_dup st1 st'"
      by (rule solveDigits_trace[OF Suc.IH wf1 rc(1,2) e1 c1 n1 search(3)])
    then show ?thesis using sd(4) by (simp add: steps_no_dup_def)
  qed
qed

lemma countDigits_trace:
  assumes IH: "\<And>st count count' st'. wf_grid (grid st) \<Longrightarrow> count_empty (grid st) < fuel \<Longrightarrow>
      no_dup (grid st) \<Longrightarrow> countSolutionsDFS fuel limit count st = Some (count', st') \<Longrightarrow>
      steps_no_dup st st'"
    and "wf_grid (grid st)" "row < 9" "col < 9" "cellAt (grid st) (row, col) = 0"
      "count_empty (grid st) \<le> fuel" "no_dup (grid st)"
      "countDigits fuel limit row col order count st = Some (count', st')"
  shows "steps_no_dup st st'"
  using assms(2-)
proof (induction order arbitrary: st count)
  case Nil
  then show ?case by (simp add: steps_refl)
next
  case (Cons num rest)
  from Cons.prems(7) show ?case
  proof (cases rule: countDigits_ConsE)
    case unsafe
    from Cons.IH[OF Cons.prems(1-6) unsafe(2)] show ?thesis .
  next
    case (stop st2)
    note pf = place_fuel[OF Cons.prems(1-5) stop(1)]
    have nd: "no_dup (grid (assign row col num st))"
      using no_dup_place[OF Cons.prems(1-3,6) stop(1)] by simp
    have "grid st2 = grid (assign row col num st)"
      using countSolutionsDFS_post[OF pf stop(2)] .
    then have g3: "grid (assign row col UNASSIGNED st2) = grid st"
      using setCell_undo[OF Cons.prems(1-4)] by simp
    have s1: "steps_no_dup st st2"
      using steps_assign[OF pf(1) nd] IH[OF pf nd stop(2)] by (rule steps_trans)
    have s2: "steps_no_dup st2 (assign row col UNASSIGNED st2)"
      using Cons.prems(1,6) by (intro steps_assign) (simp_all only: g3)
    from steps_trans[OF s1 s2] stop(4) show ?thesis by simp
  next
    case (continue count2 st2)
    note pf = place_fuel[OF Cons.prems(1-5) continue(1)]
    have nd: "no_dup (grid (assign row col num st))"
      using no_dup_place[OF Cons.prems(1-3,6) continue(1)] by simp
    have "grid st2 = grid (assign row col num st)"
      using countSolutionsDFS_post[OF pf continue(2)] .
    then have g3: "grid (assign row col UNASSIGNED st2) = grid st"
      using setCell_undo[OF Cons.prems(1-4)] by simp
    have s1: "steps_no_dup st st2"
      using steps_assign[OF pf(1) nd] IH[OF pf nd continue(2)] by (rule steps_trans)
    have s2: "steps_no_dup st2 (assign row col UNASSIGNED st2)"
      using Cons.prems(1,6) by (intro steps_assign) (simp_all only: g3)
    have s3: "steps_no_dup (assign row col UNASSIGNED st2) st'"
      using Cons.IH[of "assign row col UNASSIGNED st2" count2] Cons.prems(1-6) continue(4)
      unfolding g3 by blast
    from steps_trans[OF s1 steps_trans[OF s2 s3]] show ?thesis .
  qed
qed

lemma countSolutionsDFS_trace:
  "wf_grid (grid st) \<Longrightarrow> count_empty (grid st) < fuel \<Longrightarrow> no_dup (grid st) \<Longrightarrow>
   countSolutionsDFS fuel limit count st = Some (count', st') \<Longrightarrow> steps_no_dup st st'"
proof (induction fuel arbitrary: st count count' st')
  case 0
  then show ?case by simp
next
  case (Suc fuel)
  from Suc.prems(4) show ?case
  proof (cases rule: countSolutionsDFS_SucE)
    case cut
    then show ?thesis by (simp add: steps_refl)
  next
    case leaf
    then show ?thesis by (simp add: steps_refl)
  next
    case (search row col order st1)
    note rc = findUnassigned_Some[OF search(2)]
    note sd = shuffledDigits_props[OF search(3)]
    have wf1: "wf_grid (grid st1)" and e1: "cellAt (grid st1) (row, col) = 0"
      and c1: "count_empty (grid st1) \<le> fuel" and n1: "no_dup (grid st1)"
      using Suc.prems(1-3) rc(3) sd(3) by simp_all
    have "steps_no_dup st1 st'"
      by (rule countDigits_trace[OF Suc.IH wf1 rc(1,2) e1 c1 n1 search(4)])
    then show ?thesis using sd(4) by (simp add: steps_no_dup_def)
  qed
qed

section \<open>The counter counts completions\<close>

lemma completions_split:
  assumes "wf_grid g" "r < 9" "c < 9" "cellAt g (r, c) = 0"
  shows "(\<Union>d\<in>{1..9}. completions (setCell g r c d)) = completions g"
proof -
  have pc: "(r, c) \<in> set cells" using assms(2,3) by (simp add: in_cells)
  have eq: "completions (setCell g r c d) = {h \<in> completions g. cellAt h (r, c) = d}"
    if "d \<in> {1..9}" for d :: int
    using that by (intro completions_place[OF assms]) simp
  have "cellAt h (r, c) \<in> {1..9}" if "h \<in> completions g" for h
    using solved_range[OF _ pc, of h] that by (simp add: completions_def)
  then show ?thesis using eq by auto
qed

lemma card_completions_cons:
  assumes "wf_grid g" "r < 9" "c < 9" "cellAt g (r, c) = 0"
    "distinct (num # rest)" "set (num # rest) \<subseteq> {1..9}"
  shows "card (\<Union>d\<in>set (num # rest). completions (setCell g r c d)) =
         card (completions (setCell g r c num)) +
         card (\<Union>d\<in>set rest. completions (setCell g r c d))"
proof -
  let ?A = "\<lambda>d. completions (setCell g r c d)"
  have eq: "?A d = {h \<in> completions g. cellAt h (r, c) = d}" if "d \<in> set (num # rest)" for d
    using that assms(6) by (intro completions_place[OF assms(1-4)]) auto
  have "?A num \<inter> (\<Union>d\<in>set rest. ?A d) = {}"
  proof -
    have "False" if "h \<in> ?A num" "d \<in> set rest" "h \<in> ?A d" for h d
    proof -
      from that(1) eq[of num] have "cellAt h (r, c) = num" by simp
      moreover from that(2,3) eq[of d] have "cellAt h (r, c) = d" by simp
      ultimately show False using assms(5) that(2) by auto
    qed
    then show ?thesis by blast
  qed
  moreover have "finite (?A num)" "finite (\<Union>d\<in>set rest. ?A d)"
    by (simp_all add: finite_completions)
  ultimately have "card (?A num \<union> (\<Union>d\<in>set rest. ?A d)) =
      card (?A num) + card (\<Union>d\<in>set rest. ?A d)"
    by (intro card_Un_disjoint)
  then show ?thesis by simp
qed

lemma countDigits_count:
  assumes IH: "\<And>st count count' st'. valid (grid st) \<Longrightarrow> count_empty (grid st) < fuel \<Longrightarrow>
      count < limit \<Longrightarrow> countSolutionsDFS fuel limit count st = Some (count', st') \<Longrightarrow>
      count' = min (count + int (card (completions (grid st)))) limit"
    and "valid (grid st)" "row < 9" "col < 9" "cellAt (grid st) (row, col) = 0"
      "count_empty (grid st) \<le> fuel" "distinct order" "set order \<subseteq> {1..9}" "count < limit"
      "countDigits fuel limit row col order count st = Some (count', st')"
  shows "count' = min (count + int (card (\<Union>d\<in>set order.
            completions (setCell (grid st) row col d)))) limit"
  using assms(2-)
proof (induction order arbitrary: st count)
  case Nil
  then show ?case by simp
next
  case (Cons num rest)
  let ?g = "grid st"
  let ?U = "\<Union>d\<in>set rest. completions (setCell ?g row col d)"
  have wf: "wf_grid ?g" using Cons.prems(1) by (simp add: valid_def)
  have num: "1 \<le> num" "num \<le> 9" and rest: "distinct rest" "set rest \<subseteq> {1..9}"
    using Cons.prems(6,7) by simp_all
  have split: "card (\<Union>d\<in>set (num # rest). completions (setCell ?g row col d)) =
      card (completions (setCell ?g row col num)) + card ?U"
    using wf Cons.prems(2-4,6,7) by (rule card_completions_cons)
  from Cons.prems(9) show ?case
  proof (cases rule: countDigits_ConsE)
    case unsafe
    have "completions (setCell ?g row col num) = {}"
      using completions_unsafe[OF wf Cons.prems(2-4) _ unsafe(1)] num by simp
    with split Cons.IH[OF Cons.prems(1-5) rest Cons.prems(8) unsafe(2)] show ?thesis by simp
  next
    case (stop st2)
    note pf = place_fuel[OF wf Cons.prems(2-5) stop(1)]
    have v1: "valid (grid (assign row col num st))"
      using valid_place[OF Cons.prems(1-3) stop(1) num] by simp
    from IH[OF v1 pf(2) Cons.prems(8) stop(2)] stop(3) split show ?thesis by simp
  next
    case (continue count2 st2)
    note pf = place_fuel[OF wf Cons.prems(2-5) continue(1)]
    have v1: "valid (grid (assign row col num st))"
      using valid_place[OF Cons.prems(1-3) continue(1) num] by simp
    from IH[OF v1 pf(2) Cons.prems(8) continue(2)] continue(3)
    have c2: "count2 = count + int (card (completions (setCell ?g row col num)))" "count2 < limit"
      by simp_all
    have "grid st2 = grid (assign row col num st)"
      using countSolutionsDFS_post[OF pf continue(2)] .
    then have g3: "grid (assign row col UNASSIGNED st2) = ?g"
      using setCell_undo[OF wf Cons.prems(2-4)] by simp
    have "count' = min (count2 + int (card ?U)) limit"
      using Cons.IH[of "assign row col UNASSIGNED st2" count2] Cons.prems(1-5) rest c2(2)
        continue(4)
      unfolding g3 by blast
    with c2(1) split show ?thesis by simp
  qed
qed

lemma countSolutionsDFS_count:
  "valid (grid st) \<Longrightarrow> count_empty (grid st) < fuel \<Longrightarrow> count < limit \<Longrightarrow>
   countSolutionsDFS fuel limit count st = Some (count', st') \<Longrightarrow>
   count' = min (count + int (card (completions (grid st)))) limit"
proof (induction fuel arbitrary: st count count' st')
  case 0
  then show ?case by simp
next
  case (Suc fuel)
  from Suc.prems(4) show ?case
  proof (cases rule: countSolutionsDFS_SucE)
    case cut
    with Suc.prems(3) show ?thesis by simp
  next
    case leaf
    then have "full (grid st)" by (simp add: findUnassigned_None)
    from completions_full[OF Suc.prems(1) this] leaf(3) Suc.prems(3) show ?thesis by simp
  next
    case (search row col order st1)
    note rc = findUnassigned_Some[OF search(2)]
    note sd = shuffledDigits_props[OF search(3)]
    have wf: "wf_grid (grid st)" using Suc.prems(1) by (simp add: valid_def)
    have v1: "valid (grid st1)" and e1: "cellAt (grid st1) (row, col) = 0"
      and c1: "count_empty (grid st1) \<le> fuel"
      using Suc.prems(1,2) rc(3) sd(3) by simp_all
    have ord: "set order \<subseteq> {1..9}" using sd(1) by simp
    have "count' = min (count + int (card (\<Union>d\<in>set order.
            completions (setCell (grid st1) row col d)))) limit"
      by (rule countDigits_count[OF Suc.IH v1 rc(1,2) e1 c1 sd(2) ord Suc.prems(3) search(4)])
    then show ?thesis
      using completions_split[OF wf rc] sd(1,3) by simp
  qed
qed

lemma countSolutions_result:
  assumes "valid (grid st)" "count_empty (grid st) < fuel"
  shows "\<exists>st'. countSolutions fuel limit st =
            Some (min (int (card (completions (grid st)))) (max limit 0), st') \<and>
          grid st' = grid st"
proof -
  have wf: "wf_grid (grid st)" using assms(1) by (simp add: valid_def)
  from countSolutionsDFS_frame[OF wf assms(2), of limit 0]
  obtain cnt st' where run: "countSolutionsDFS fuel limit 0 st = Some (cnt, st')" by blast
  have "cnt = min (int (card (completions (grid st)))) (max limit 0)"
  proof (cases "0 < limit")
    case True
    from countSolutionsDFS_count[OF assms True run] True show ?thesis by simp
  next
    case False
    obtain k where k: "fuel = Suc k" using assms(2) by (cases fuel) simp_all
    from run False have "cnt = 0" unfolding k by simp
    with False show ?thesis by simp
  qed
  with run show ?thesis by (simp add: countSolutions_DFS[OF wf])
qed

section \<open>Filling the empty grid\<close>

lemma example_solution_solved: "solved example_solution"
  by code_simp

lemma emptyGrid_valid: "valid emptyGrid"
  by code_simp

lemma emptyGrid_count: "count_empty emptyGrid = 81"
  by code_simp

lemma emptyGrid_completion: "example_solution \<in> completions emptyGrid"
proof -
  have "extends emptyGrid example_solution"
    by (simp add: extends_def emptyGrid_def cellAt_replicate)
  then show ?thesis by (simp add: completions_def example_solution_solved)
qed

lemma fillGrid_empty:
  assumes "grid st = emptyGrid" "82 \<le> fuel"
  shows "\<exists>st'. fillGrid fuel st = Some (True, st') \<and> solved (grid st')"
proof -
  have v: "valid (grid st)" using assms(1) emptyGrid_valid by simp
  then have wf: "wf_grid (grid st)" by (simp add: valid_def)
  have c: "count_empty (grid st) < fuel" using assms emptyGrid_count by simp
  from solveSudoku_frame[OF wf c] obtain ok st' where run: "solveSudoku fuel st = Some (ok, st')"
    by blast
  have "example_solution \<in> completions (grid st)" using assms(1) emptyGrid_completion by simp
  from solveSudoku_complete[OF wf c this run] have ok by simp
  with run have run': "solveSudoku fuel st = Some (True, st')" by simp
  from solveSudoku_sound(1)[OF v c run'] run' show ?thesis by (simp add: fillGrid_eq)
qed

section \<open>Carving\<close>

lemma extends_clear:
  assumes "wf_grid g" "r < 9" "c < 9" "extends g h"
  shows "extends (setCell g r c 0) h"
  using assms(4) by (simp add: extends_def cellAt_setCell[OF assms(1-3)])

lemma count_empty_clear:
  assumes "wf_grid g" "r < 9" "c < 9" "cellAt g (r, c) \<noteq> 0"
  shows "count_empty (setCell g r c 0) = Suc (count_empty g)"
proof -
  let ?g1 = "setCell g r c 0"
  have z: "cellAt ?g1 (r, c) = 0" by (simp add: cellAt_setCell[OF assms(1-3)])
  have undo: "setCell ?g1 r c (cellAt g (r, c)) = g"
    using assms(1-3) by (simp add: setCell_setCell setCell_same)
  have "count_empty (setCell ?g1 r c (cellAt g (r, c))) < count_empty ?g1"
    by (rule count_empty_place[OF wf_setCell[OF assms(1)] assms(2,3) z assms(4)])
  then have "count_empty g < count_empty ?g1" by (simp only: undo)
  moreover have "count_empty ?g1 \<le> Suc (count_empty g)"
  proof -
    have "{p \<in> set cells. cellAt ?g1 p = 0} \<subseteq> insert (r, c) {p \<in> set cells. cellAt g p = 0}"
      by (auto simp: cellAt_setCell[OF assms(1-3)] split: if_splits)
    then have "card {p \<in> set cells. cellAt ?g1 p = 0} \<le>
               card (insert (r, c) {p \<in> set cells. cellAt g p = 0})"
      by (intro card_mono) simp_all
    also have "\<dots> \<le> Suc (card {p \<in> set cells. cellAt g p = 0})"
      by (rule card_insert_le_m1) simp_all
    finally show ?thesis by (simp add: count_empty_card)
  qed
  ultimately show ?thesis by simp
qed

lemma setCell_commute:
  assumes "wf_grid g" "r < 9" "c < 9" "r' < 9" "c' < 9"
  shows "setCell (setCell g r c v) r' c' v = setCell (setCell g r' c' v) r c v"
proof (rule grid_eqI)
  show "wf_grid (setCell (setCell g r c v) r' c' v)" "wf_grid (setCell (setCell g r' c' v) r c v)"
    using assms(1) by (simp_all add: wf_setCell)
  fix p assume "p \<in> set cells"
  show "cellAt (setCell (setCell g r c v) r' c' v) p = cellAt (setCell (setCell g r' c' v) r c v) p"
    using assms by (simp add: cellAt_setCell wf_setCell)
qed

lemma completions_clear_mono:
  assumes "wf_grid g" "r < 9" "c < 9"
  shows "completions g \<subseteq> completions (setCell g r c 0)"
  using extends_clear[OF assms] by (auto simp: completions_def)

lemma irremovable_clear:
  assumes "wf_grid g" "r < 9" "c < 9" "q \<in> set cells" "irremovable g q"
  shows "irremovable (setCell g r c 0) q"
  unfolding irremovable_def
proof
  let ?g1 = "setCell g r c 0"
  assume nz: "cellAt ?g1 q \<noteq> 0"
  have q: "fst q < 9" "snd q < 9" using assms(4) by (simp_all add: cells_bounds)
  from nz have "cellAt g q \<noteq> 0" by (simp add: cellAt_setCell[OF assms(1-3)] split: if_splits)
  with assms(5) have two: "2 \<le> card (completions (setCell g (fst q) (snd q) 0))"
    by (simp add: irremovable_def)
  have "completions (setCell g (fst q) (snd q) 0) \<subseteq>
        completions (setCell (setCell g (fst q) (snd q) 0) r c 0)"
    using wf_setCell[OF assms(1)] assms(2,3) by (rule completions_clear_mono)
  also have "setCell (setCell g (fst q) (snd q) 0) r c 0 = setCell ?g1 (fst q) (snd q) 0"
    using assms(1) q assms(2,3) by (rule setCell_commute)
  finally have "card (completions (setCell g (fst q) (snd q) 0)) \<le>
                card (completions (setCell ?g1 (fst q) (snd q) 0))"
    by (intro card_mono finite_completions)
  with two show "2 \<le> card (completions (setCell ?g1 (fst q) (snd q) 0))" by simp
qed

lemma pos_cells: "(\<lambda>pos. (pos div 9, pos mod 9)) ` {0..<81} = set cells"
proof
  show "(\<lambda>pos. (pos div 9, pos mod 9)) ` {0..<81} \<subseteq> set cells"
    by (auto simp: in_cells div_less_iff_less_mult)
  show "set cells \<subseteq> (\<lambda>pos. (pos div 9, pos mod 9)) ` {0..<81}"
  proof
    fix p assume "p \<in> set cells"
    then have b: "fst p < 9" "snd p < 9" by (simp_all add: cells_bounds)
    then have "9 * fst p + snd p < 81" by linarith
    moreover have "p = ((9 * fst p + snd p) div 9, (9 * fst p + snd p) mod 9)"
      using b(2) by simp
    ultimately show "p \<in> (\<lambda>pos. (pos div 9, pos mod 9)) ` {0..<81}"
      by (intro image_eqI[where x = "9 * fst p + snd p"]) simp_all
  qed
qed

lemma carveLoop_inv:
  assumes "82 \<le> fuel"
  shows "valid (grid st) \<Longrightarrow> completions (grid st) = {sol} \<Longrightarrow> set cs \<subseteq> {0..<81} \<Longrightarrow>
    V \<subseteq> set cells \<Longrightarrow> \<forall>p\<in>V. irremovable (grid st) p \<Longrightarrow>
    \<exists>removed' st'. carveLoop fuel toRemove cs removed st = Some (removed', st') \<and>
       valid (grid st') \<and> completions (grid st') = {sol} \<and>
       removed \<le> removed' \<and> removed' \<le> max removed toRemove \<and>
       int (count_empty (grid st')) = int (count_empty (grid st)) + (removed' - removed) \<and>
       (removed' < toRemove \<longrightarrow>
          (\<forall>p\<in>V \<union> (\<lambda>pos. (pos div 9, pos mod 9)) ` set cs. irremovable (grid st') p))"
proof (induction cs arbitrary: st removed V)
  case Nil
  then show ?case by simp
next
  case (Cons pos rest)
  let ?g = "grid st"
  let ?r = "pos div 9"
  let ?c = "pos mod 9"
  let ?V = "insert (?r, ?c) V"
  let ?f = "\<lambda>pos. (pos div 9, pos mod 9)"
  have wf: "wf_grid ?g" using Cons.prems(1) by (simp add: valid_def)
  have "pos < 81" using Cons.prems(3) by simp
  then have r: "?r < 9" and c: "?c < 9" by (simp_all add: div_less_iff_less_mult)
  have rest: "set rest \<subseteq> {0..<81}" using Cons.prems(3) by simp
  have V: "?V \<subseteq> set cells" using Cons.prems(4) r c by (simp add: in_cells)
  have un: "?V \<union> ?f ` set rest = V \<union> ?f ` set (pos # rest)" by auto
  show ?case
  proof (cases "removed < toRemove")
    case False
    then show ?thesis using Cons.prems(1,2) by simp
  next
    case lt: True
    show ?thesis
    proof (cases "?g ! ?r ! ?c = UNASSIGNED")
      case True
      then have "irremovable ?g (?r, ?c)" by (simp add: irremovable_def cellAt_def)
      with Cons.prems(5) have irr: "\<forall>p\<in>?V. irremovable ?g p" by simp
      from Cons.IH[OF Cons.prems(1,2) rest V irr, of removed] True lt show ?thesis
        unfolding un by simp
    next
      case False
      then have nz: "cellAt ?g (?r, ?c) \<noteq> 0" by (simp add: cellAt_def)
      let ?g1 = "setCell ?g ?r ?c UNASSIGNED"
      let ?st1 = "st\<lparr>grid := ?g1\<rparr>"
      have v1: "valid (grid ?st1)" using valid_clear[OF Cons.prems(1) r c] by simp
      have c1: "count_empty (grid ?st1) < fuel"
        using count_empty_le[of "grid ?st1"] assms by simp
      from countSolutions_result[OF v1 c1, of 2] obtain st2 where
        cs: "countSolutions fuel 2 ?st1 = Some (min (int (card (completions ?g1))) 2, st2)"
        and g2: "grid st2 = ?g1" by auto
      have "extends ?g sol" using Cons.prems(2) by (auto simp: completions_def)
      then have "extends ?g1 sol" using extends_clear[OF wf r c] by simp
      moreover have "solved sol" using Cons.prems(2) by (auto simp: completions_def)
      ultimately have sol1: "sol \<in> completions ?g1" by (simp add: completions_def)
      show ?thesis
      proof (cases "min (int (card (completions ?g1))) 2 = 1")
        case True
        then have "card (completions ?g1) = 1" by simp
        then obtain x where "completions ?g1 = {x}" by (rule card_1_singletonE)
        with sol1 have one: "completions (grid st2) = {sol}" using g2 by simp
        have v2: "valid (grid st2)" using v1 g2 by simp
        have "irremovable ?g1 (?r, ?c)"
          by (simp add: irremovable_def cellAt_setCell[OF wf r c])
        moreover have "irremovable ?g1 p" if "p \<in> V" for p
          using irremovable_clear[OF wf r c, of p] Cons.prems(4,5) that by blast
        ultimately have irr: "\<forall>p\<in>?V. irremovable (grid st2) p" using g2 by simp
        from Cons.IH[OF v2 one rest V irr, of "removed + 1"]
        obtain removed' st' where
          run: "carveLoop fuel toRemove rest (removed + 1) st2 = Some (removed', st')"
          and inv: "valid (grid st')" "completions (grid st') = {sol}"
            "removed + 1 \<le> removed'" "removed' \<le> max (removed + 1) toRemove"
            "int (count_empty (grid st')) = int (count_empty (grid st2)) + (removed' - (removed + 1))"
            "removed' < toRemove \<longrightarrow> (\<forall>p\<in>?V \<union> ?f ` set rest. irremovable (grid st') p)"
          by blast
        have "carveLoop fuel toRemove (pos # rest) removed st = Some (removed', st')"
          using lt False cs True run by simp
        moreover have "int (count_empty (grid st')) = int (count_empty ?g) + (removed' - removed)"
          using inv(5) g2 count_empty_clear[OF wf r c nz] by simp
        moreover have "removed \<le> removed'" "removed' \<le> max removed toRemove"
          using inv(3,4) lt by simp_all
        ultimately show ?thesis using inv(1,2,6) unfolding un by blast
      next
        case no: False
        let ?st3 = "st2\<lparr>grid := setCell (grid st2) ?r ?c (?g ! ?r ! ?c)\<rparr>"
        have "setCell ?g1 ?r ?c (cellAt ?g (?r, ?c)) = ?g"
          using wf r c by (simp add: setCell_setCell setCell_same)
        then have g3: "grid ?st3 = ?g" using g2 by (simp add: cellAt_def)
        have "card (completions ?g1) \<noteq> 0"
          using sol1 finite_completions[of ?g1] by auto
        with no have "2 \<le> card (completions ?g1)" by simp
        then have "irremovable ?g (?r, ?c)" by (simp add: irremovable_def)
        with Cons.prems(5) have irr: "\<forall>p\<in>?V. irremovable ?g p" by simp
        from Cons.IH[of ?st3 ?V removed] Cons.prems(1,2) rest V irr
        obtain removed' st' where
          run: "carveLoop fuel toRemove rest removed ?st3 = Some (removed', st')"
          and inv: "valid (grid st')" "completions (grid st') = {sol}"
            "removed \<le> removed'" "removed' \<le> max removed toRemove"
            "int (count_empty (grid st')) = int (count_empty ?g) + (removed' - removed)"
            "removed' < toRemove \<longrightarrow> (\<forall>p\<in>?V \<union> ?f ` set rest. irremovable (grid st') p)"
          unfolding g3 by blast
        have "carveLoop fuel toRemove (pos # rest) removed st = Some (removed', st')"
          using lt False cs no run by simp
        then show ?thesis using inv unfolding un by blast
      qed
    qed
  qed
qed

lemma carveUnique_inv:
  assumes "82 \<le> fuel" "solved (grid st)"
  shows "\<exists>removed st'. carveUnique fuel toRemove st = Some (removed, st') \<and>
       valid (grid st') \<and> completions (grid st') = {grid st} \<and>
       0 \<le> removed \<and> removed \<le> max 0 toRemove \<and> int (count_empty (grid st')) = removed \<and>
       (removed < toRemove \<longrightarrow> (\<forall>p\<in>set cells. irremovable (grid st') p))"
proof -
  obtain cs st1 where fy: "fisherYates 80 [0..<81] st = (cs, st1)"
    by (cases "fisherYates 80 [0..<81] st")
  from fisherYates_perm[OF fy] have cs: "set cs \<subseteq> {0..<81}" and all: "set cs = {0..<81}"
    by simp_all
  from fisherYates_state[OF fy] have g1: "grid st1 = grid st" by simp
  have v: "valid (grid st1)" using assms(2) g1 by (simp add: solved_valid)
  have "full (grid st)" using assms(2) by (simp add: solved_def)
  then have f: "count_empty (grid st1) = 0" using g1 by (simp add: full_count_empty)
  have one: "completions (grid st1) = {grid st}"
    using completions_full[OF v] \<open>full (grid st)\<close> g1 by simp
  have V: "{} \<subseteq> set cells" "\<forall>p\<in>{}. irremovable (grid st1) p" by simp_all
  from carveLoop_inv[OF assms(1) v one cs V, of toRemove 0] f
  show ?thesis by (simp add: carveUnique_def fy all pos_cells)
qed

section \<open>Clue targets\<close>

lemma chooseClues_value:
  "chooseClues difficulty st =
     (fst (clueRange difficulty) + int (rng st 0) mod 6, st\<lparr>rng := (\<lambda>i. rng st (Suc i))\<rparr>)"
  by (simp add: chooseClues_def clueRange_def rand_def)

lemma chooseClues_range:
  assumes "chooseClues difficulty st = (clues, st1)"
  shows "fst (clueRange difficulty) \<le> clues" "clues \<le> snd (clueRange difficulty)"
    "grid st1 = grid st" "24 \<le> clues" "clues \<le> 50"
proof -
  define k where "k = int (rng st 0) mod 6"
  have m: "0 \<le> k" "k \<le> 5" by (simp_all add: k_def)
  from assms have c: "clues = fst (clueRange difficulty) + k"
    and s: "st1 = st\<lparr>rng := (\<lambda>i. rng st (Suc i))\<rparr>"
    by (simp_all add: chooseClues_value k_def)
  show "grid st1 = grid st" using s by simp
  have "clueRange difficulty = (45, 50) \<or> clueRange difficulty = (24, 29) \<or>
        clueRange difficulty = (34, 39)"
    unfolding clueRange_def by (cases "difficulty = ''easy''"; cases "difficulty = ''hard''"; simp)
  then show "fst (clueRange difficulty) \<le> clues" "clues \<le> snd (clueRange difficulty)"
    "24 \<le> clues" "clues \<le> 50"
    using c m by auto
qed

section \<open>Generation\<close>

lemma generatePuzzle_run:
  assumes "wf_grid (grid st)" "82 \<le> fuel"
  shows "\<exists>sol_st clues st2 removed st'.
      fillGrid fuel (st\<lparr>grid := clearCells (grid st)\<rparr>) = Some (True, sol_st) \<and>
      solved (grid sol_st) \<and>
      chooseClues difficulty sol_st = (clues, st2) \<and>
      carveUnique fuel (81 - clues) st2 = Some (removed, st') \<and>
      generatePuzzle (Suc fuel) difficulty st = Some (removed, st') \<and>
      valid (grid st') \<and> completions (grid st') = {grid sol_st} \<and>
      0 \<le> removed \<and> removed \<le> 81 - clues \<and> int (count_empty (grid st')) = removed \<and>
      (removed < 81 - clues \<longrightarrow> (\<forall>p\<in>set cells. irremovable (grid st') p))"
proof -
  let ?st0 = "st\<lparr>grid := clearCells (grid st)\<rparr>"
  have "grid ?st0 = emptyGrid" using clearCells_eq[OF assms(1)] by (simp add: emptyGrid_def)
  from fillGrid_empty[OF this assms(2)] obtain sol_st where
    fill: "fillGrid fuel ?st0 = Some (True, sol_st)" and sol: "solved (grid sol_st)" by blast
  obtain clues st2 where cc: "chooseClues difficulty sol_st = (clues, st2)"
    by (cases "chooseClues difficulty sol_st")
  note cr = chooseClues_range[OF cc]
  have sol2: "solved (grid st2)" using sol cr(3) by simp
  from carveUnique_inv[OF assms(2) sol2, of "81 - clues"] obtain removed st' where
    carve: "carveUnique fuel (81 - clues) st2 = Some (removed, st')"
    and inv: "valid (grid st')" "completions (grid st') = {grid st2}" "0 \<le> removed"
      "removed \<le> max 0 (81 - clues)" "int (count_empty (grid st')) = removed"
      "removed < 81 - clues \<longrightarrow> (\<forall>p\<in>set cells. irremovable (grid st') p)"
    by blast
  have gen: "generatePuzzle (Suc fuel) difficulty st = Some (removed, st')"
    using fill cc carve by simp
  have le: "removed \<le> 81 - clues" using inv(4) cr(5) by simp
  have one: "completions (grid st') = {grid sol_st}" using inv(2) cr(3) by simp
  show ?thesis
    by (intro exI[of _ sol_st] exI[of _ clues] exI[of _ st2] exI[of _ removed] exI[of _ st']
        conjI fill sol cc carve gen inv(1) one inv(3) le inv(5) inv(6))
qed

section \<open>How often each clue target is drawn\<close>

lemma count_mod6:
  "k < 6 \<Longrightarrow>
   length (filter (\<lambda>x. x mod 6 = k) [0..<n]) = n div 6 + (if k < n mod 6 then 1 else 0)"
proof (induction n)
  case 0
  then show ?case by simp
next
  case (Suc n)
  have m: "n mod 6 < 6" by simp
  show ?case
  proof (cases "n mod 6 = 5")
    case True
    then have "Suc n mod 6 = 0" "Suc n div 6 = Suc (n div 6)"
      by (simp_all add: mod_Suc div_Suc)
    with Suc True show ?thesis by auto
  next
    case False
    with m have "Suc n mod 6 = Suc (n mod 6)" "Suc n div 6 = n div 6"
      by (simp_all add: mod_Suc div_Suc)
    with Suc show ?thesis by auto
  qed
qed

lemma drawCount_formula:
  assumes "k < 6"
  shows "drawCount difficulty st randMax (fst (clueRange difficulty) + int k) =
         Suc randMax div 6 + (if k < Suc randMax mod 6 then 1 else 0)"
proof -
  have "fst (chooseClues difficulty (st\<lparr>rng := (\<lambda>i. x)\<rparr>)) = fst (clueRange difficulty) + int k
        \<longleftrightarrow> x mod 6 = k" for x
  proof -
    have "int x mod 6 = int (x mod 6)" by (simp add: zmod_int)
    then show ?thesis using assms by (simp add: chooseClues_value)
  qed
  then show ?thesis using count_mod6[OF assms, of "Suc randMax"] by (simp add: drawCount_def)
qed

lemma example_state_grid: "grid (example_state g) = g"
  by (simp add: example_state_def)

lemma example_puzzle_wf: "wf_grid example_puzzle"
  by code_simp

lemma example_puzzle_empty: "count_empty example_puzzle = 3"
  by code_simp

section \<open>The constraint checker\<close>

lemma usedInRow_ex: "usedInRow g row d \<longleftrightarrow> (\<exists>c<9. g ! row ! c = d)"
  by (simp add: usedInRow_def list_ex_iff Bex_def)

lemma usedInCol_ex: "usedInCol g col d \<longleftrightarrow> (\<exists>r<9. g ! r ! col = d)"
  by (simp add: usedInCol_def list_ex_iff Bex_def)

lemma usedInBox_ex:
  "usedInBox g br bc d \<longleftrightarrow> (\<exists>i<3. \<exists>j<3. g ! (br + i) ! (bc + j) = d)"
  by (simp add: usedInBox_def list_ex_iff Bex_def)

lemma box_origin: "(row::nat) - row mod 3 = 3 * (row div 3)"
  by (simp add: minus_mod_eq_mult_div)

lemma box_start: "(r::nat) div 3 = row div 3 \<Longrightarrow> r = row - row mod 3 + r mod 3"
  unfolding box_origin by (metis mult_div_mod_eq)

lemma box_member:
  assumes "(row::nat) < 9" "i < 3"
  shows "row - row mod 3 + i < 9 \<and> (row - row mod 3 + i) div 3 = row div 3"
proof -
  define q where "q = row div 3"
  have "q < 3" using assms(1) by (simp add: q_def div_less_iff_less_mult)
  with assms(2) have "3 * q + i < 9" by linarith
  moreover have "(3 * q + i) div 3 = q" using assms(2) by simp
  ultimately show ?thesis unfolding box_origin q_def by simp
qed

lemma usedInBox_cells:
  assumes "row < 9" "col < 9"
  shows "usedInBox g (row - row mod 3) (col - col mod 3) d \<longleftrightarrow>
         (\<exists>r<9. \<exists>c<9. r div 3 = row div 3 \<and> c div 3 = col div 3 \<and> g ! r ! c = d)"
    (is "?L \<longleftrightarrow> ?R")
proof
  assume ?L
  then obtain i j where ij: "i < 3" "j < 3"
    "g ! (row - row mod 3 + i) ! (col - col mod 3 + j) = d"
    unfolding usedInBox_ex by blast
  from box_member[OF assms(1) ij(1)] box_member[OF assms(2) ij(2)] ij(3)
  show ?R by blast
next
  assume ?R
  then obtain r c where rc: "r < 9" "c < 9" "r div 3 = row div 3" "c div 3 = col div 3"
    "g ! r ! c = d" by blast
  have "g ! (row - row mod 3 + r mod 3) ! (col - col mod 3 + c mod 3) = d"
    using box_start[OF rc(3)] box_start[OF rc(4)] rc(5) by simp
  moreover have "r mod 3 < 3" "c mod 3 < 3" by simp_all
  ultimately show ?L unfolding usedInBox_ex by blast
qed

text \<open>
  C5. For \<open>row\<close>, \<open>col\<close> in 0..8 and a digit in 1..9, \<open>isSafe\<close> is true exactly
  when the digit appears nowhere else in the row, nowhere else in the column, nowhere
  else in the 3x3 box of the cell, and the cell itself is empty.
\<close>

theorem isSafe_spec:
  assumes "row < 9" "col < 9" "1 \<le> d" "d \<le> 9"
  shows "isSafe g row col d \<longleftrightarrow>
           (\<forall>c<9. c \<noteq> col \<longrightarrow> g ! row ! c \<noteq> d) \<and>
           (\<forall>r<9. r \<noteq> row \<longrightarrow> g ! r ! col \<noteq> d) \<and>
           (\<forall>r<9. \<forall>c<9. r div 3 = row div 3 \<and> c div 3 = col div 3 \<and> (r, c) \<noteq> (row, col)
                \<longrightarrow> g ! r ! c \<noteq> d) \<and>
           g ! row ! col = UNASSIGNED"
proof (cases "g ! row ! col = UNASSIGNED")
  case False
  then show ?thesis by (simp add: isSafe_def)
next
  case True
  with assms(3) have here: "g ! row ! col \<noteq> d" by simp
  have "\<not> usedInRow g row d \<longleftrightarrow> (\<forall>c<9. c \<noteq> col \<longrightarrow> g ! row ! c \<noteq> d)"
    unfolding usedInRow_ex using here by blast
  moreover have "\<not> usedInCol g col d \<longleftrightarrow> (\<forall>r<9. r \<noteq> row \<longrightarrow> g ! r ! col \<noteq> d)"
    unfolding usedInCol_ex using here by blast
  moreover have "\<not> usedInBox g (row - row mod 3) (col - col mod 3) d \<longleftrightarrow>
      (\<forall>r<9. \<forall>c<9. r div 3 = row div 3 \<and> c div 3 = col div 3 \<and> (r, c) \<noteq> (row, col)
          \<longrightarrow> g ! r ! c \<noteq> d)"
    unfolding usedInBox_cells[OF assms(1,2)] using here by blast
  ultimately show ?thesis using True by (simp add: isSafe_def)
qed

theorem isSafe_spec_witness:
  "(8::nat) < 9 \<and> (1::int) \<le> 8 \<and> (8::int) \<le> 9 \<and> isSafe example_puzzle 8 8 8 \<and>
   (isSafe example_puzzle 8 8 8 \<longleftrightarrow>
      (\<forall>c<9. c \<noteq> 8 \<longrightarrow> example_puzzle ! 8 ! c \<noteq> 8) \<and>
      (\<forall>r<9. r \<noteq> 8 \<longrightarrow> example_puzzle ! r ! 8 \<noteq> 8) \<and>
      (\<forall>r<9. \<forall>c<9. r div 3 = 8 div 3 \<and> c div 3 = 8 div 3 \<and> (r, c) \<noteq> (8, 8)
           \<longrightarrow> example_puzzle ! r ! c \<noteq> 8) \<and>
      example_puzzle ! 8 ! 8 = UNASSIGNED)"
proof -
  have s: "isSafe example_puzzle 8 8 8" by code_simp
  have t: "isSafe example_puzzle 8 8 8 \<longleftrightarrow>
      (\<forall>c<9. c \<noteq> 8 \<longrightarrow> example_puzzle ! 8 ! c \<noteq> 8) \<and>
      (\<forall>r<9. r \<noteq> 8 \<longrightarrow> example_puzzle ! r ! 8 \<noteq> 8) \<and>
      (\<forall>r<9. \<forall>c<9. r div 3 = 8 div 3 \<and> c div 3 = 8 div 3 \<and> (r, c) \<noteq> (8, 8)
           \<longrightarrow> example_puzzle ! r ! c \<noteq> 8) \<and>
      example_puzzle ! 8 ! 8 = UNASSIGNED"
    by (rule isSafe_spec) simp_all
  show ?thesis by (intro conjI s t) simp_all
qed

section \<open>Frame properties\<close>

text \<open>
  C8. \<open>countSolutions\<close> leaves the caller's grid unchanged: the private array it
  fills is a cell-for-cell copy of the caller's grid, the search runs on that copy, and
  the grid the caller holds afterwards is the one it passed in.
\<close>

theorem countSolutions_keeps_grid:
  assumes "wf_grid (grid st)" and "count_empty (grid st) < fuel"
  shows "copyCells (grid st) (replicate N (replicate N 0)) = grid st \<and>
         (\<exists>cnt s. countSolutionsDFS fuel limit 0
                     (st\<lparr>grid := copyCells (grid st) (replicate N (replicate N 0))\<rparr>)
                     = Some (cnt, s) \<and>
                   countSolutions fuel limit st = Some (cnt, s\<lparr>grid := grid st\<rparr>) \<and>
                   grid (s\<lparr>grid := grid st\<rparr>) = grid st)"
proof -
  have copy: "copyCells (grid st) (replicate N (replicate N 0)) = grid st"
    using copyCells_eq[OF assms(1) wf_replicate] .
  from countSolutionsDFS_frame[OF assms, of limit 0]
  obtain cnt s where run: "countSolutionsDFS fuel limit 0 st = Some (cnt, s)" by blast
  then have "countSolutions fuel limit st = Some (cnt, s\<lparr>grid := grid st\<rparr>)"
    by (simp add: countSolutions_DFS[OF assms(1)])
  with run copy show ?thesis by simp
qed

theorem countSolutions_keeps_grid_witness:
  "wf_grid example_puzzle \<and> count_empty example_puzzle < 4 \<and>
   copyCells example_puzzle (replicate N (replicate N 0)) = example_puzzle \<and>
   (\<exists>cnt st'. countSolutions 4 2 (example_state example_puzzle) = Some (cnt, st') \<and>
       grid st' = example_puzzle)"
proof -
  have e: "count_empty example_puzzle < 4" by (simp add: example_puzzle_empty)
  from countSolutions_keeps_grid[of "example_state example_puzzle" 4 2]
  show ?thesis using example_puzzle_wf e by (auto simp: example_state_grid)
qed

text \<open>
  C10. \<open>solveSudoku\<close> and \<open>fillGrid\<close> never alter a cell that is filled when they
  are called: whatever they return, every cell that was nonzero holds the same digit
  afterwards.
\<close>

theorem filled_cells_kept:
  assumes "wf_grid (grid st)" and "count_empty (grid st) < fuel"
  shows "(\<exists>ok st'. solveSudoku fuel st = Some (ok, st') \<and>
            (\<forall>r<9. \<forall>c<9. grid st ! r ! c \<noteq> 0 \<longrightarrow> grid st' ! r ! c = grid st ! r ! c)) \<and>
         (\<exists>ok st'. fillGrid fuel st = Some (ok, st') \<and>
            (\<forall>r<9. \<forall>c<9. grid st ! r ! c \<noteq> 0 \<longrightarrow> grid st' ! r ! c = grid st ! r ! c))"
proof -
  from solveSudoku_frame[OF assms]
  obtain ok st' where run: "solveSudoku fuel st = Some (ok, st')"
    and post: "solve_post (grid st) ok (grid st')" by blast
  have "extends (grid st) (grid st')"
    using post by (cases ok) (simp_all add: solve_post_def extends_refl)
  then have "\<forall>r<9. \<forall>c<9. grid st ! r ! c \<noteq> 0 \<longrightarrow> grid st' ! r ! c = grid st ! r ! c"
    by (auto simp: extends_def cellAt_def cells_def)
  with run show ?thesis by (auto simp: fillGrid_eq)
qed

theorem filled_cells_kept_witness:
  "wf_grid example_puzzle \<and> count_empty example_puzzle < 4 \<and>
   (\<exists>ok st'. solveSudoku 4 (example_state example_puzzle) = Some (ok, st') \<and>
      (\<forall>r<9. \<forall>c<9. example_puzzle ! r ! c \<noteq> 0 \<longrightarrow> grid st' ! r ! c = example_puzzle ! r ! c)) \<and>
   (\<exists>ok st'. fillGrid 4 (example_state example_puzzle) = Some (ok, st') \<and>
      (\<forall>r<9. \<forall>c<9. example_puzzle ! r ! c \<noteq> 0 \<longrightarrow> grid st' ! r ! c = example_puzzle ! r ! c))"
proof -
  have e: "count_empty example_puzzle < 4" by (simp add: example_puzzle_empty)
  from filled_cells_kept[of "example_state example_puzzle" 4]
  show ?thesis using example_puzzle_wf e by (simp add: example_state_grid)
qed

lemma extends_cells:
  "extends g h \<longleftrightarrow> (\<forall>r<9. \<forall>c<9. g ! r ! c \<noteq> 0 \<longrightarrow> h ! r ! c = g ! r ! c)"
  by (auto simp: extends_def cellAt_def cells_def)

lemma example_puzzle_valid: "valid example_puzzle"
  by code_simp

lemma dead_end_valid: "valid dead_end"
  by code_simp

lemma dead_end_empty: "count_empty dead_end = 3"
  by code_simp

lemma full_completion_eq:
  assumes "wf_grid g" "full g" "h \<in> completions g"
  shows "h = g"
proof (rule grid_eqI)
  show "wf_grid h" using assms(3) by (simp add: completions_def solved_def)
  show "wf_grid g" by fact
  fix p assume "p \<in> set cells"
  with assms(2,3) show "cellAt h p = cellAt g p"
    by (simp add: completions_def extends_def full_def)
qed

lemma clash_grid_no_completion: "completions clash_grid = {}"
proof -
  have wf: "wf_grid clash_grid" and f: "full clash_grid" and ns: "\<not> solved clash_grid"
    by code_simp+
  have False if "h \<in> completions clash_grid" for h
    using full_completion_eq[OF wf f that] that ns by (simp add: completions_def)
  then show ?thesis by blast
qed

section \<open>Solver\<close>

text \<open>
  C3. For a grid whose cells are in 0..9 and whose placed digits satisfy row, column
  and box uniqueness: \<open>solveSudoku\<close> returns, and if it returns true the grid has no
  empty cell and every row, column and 3x3 box contains each digit 1..9 exactly once.
\<close>

theorem solveSudoku_true_solved:
  assumes "valid (grid st)" and "count_empty (grid st) < fuel"
  shows "\<exists>ok st'. solveSudoku fuel st = Some (ok, st') \<and>
           (ok \<longrightarrow> full (grid st') \<and> (\<forall>u\<in>set units. each_once (unitVals (grid st') u)))"
proof -
  have wf: "wf_grid (grid st)" using assms(1) by (simp add: valid_def)
  from solveSudoku_frame[OF wf assms(2)] obtain ok st' where
    run: "solveSudoku fuel st = Some (ok, st')" by blast
  have "full (grid st') \<and> (\<forall>u\<in>set units. each_once (unitVals (grid st') u))" if ok
    using solveSudoku_sound(1)[OF assms, of st'] run that by (simp add: solved_def)
  with run show ?thesis by blast
qed

theorem solveSudoku_true_solved_witness:
  "valid example_puzzle \<and> count_empty example_puzzle < 4 \<and>
   (\<exists>st'. solveSudoku 4 (example_state example_puzzle) = Some (True, st') \<and>
      full (grid st') \<and> list_all (\<lambda>u. each_once (unitVals (grid st') u)) units)"
proof -
  have e: "count_empty example_puzzle < 4" by (simp add: example_puzzle_empty)
  have t: "map_option fst (solveSudoku 4 (example_state example_puzzle)) = Some True"
    by code_simp
  from solveSudoku_true_solved[of "example_state example_puzzle" 4] example_puzzle_valid e
  obtain ok st' where "solveSudoku 4 (example_state example_puzzle) = Some (ok, st')"
    "ok \<longrightarrow> full (grid st') \<and> (\<forall>u\<in>set units. each_once (unitVals (grid st') u))"
    by (auto simp: example_state_grid)
  with t have "solveSudoku 4 (example_state example_puzzle) = Some (True, st') \<and>
      full (grid st') \<and> list_all (\<lambda>u. each_once (unitVals (grid st') u)) units"
    by (simp add: list_all_iff)
  with example_puzzle_valid e show ?thesis by blast
qed

text \<open>
  C4 (as the code has it). For every grid, when \<open>solveSudoku\<close> returns false the grid
  is cell for cell what it was at the call and the grid has no full valid completion.
  The converse needs a grid that respects the rules: for a grid whose cells are in 0..9
  with no duplicate nonzero digit in a row, column or box, false is returned whenever
  no completion exists. A full grid that already breaks the rules is answered true.
\<close>

theorem solveSudoku_false_iff:
  assumes "wf_grid (grid st)" and "count_empty (grid st) < fuel"
  shows "\<exists>ok st'. solveSudoku fuel st = Some (ok, st') \<and>
           (\<not> ok \<longrightarrow> grid st' = grid st \<and> completions (grid st) = {}) \<and>
           (valid (grid st) \<longrightarrow> completions (grid st) = {} \<longrightarrow> \<not> ok)"
proof -
  from solveSudoku_frame[OF assms] obtain ok st' where
    run: "solveSudoku fuel st = Some (ok, st')" and post: "solve_post (grid st) ok (grid st')"
    by blast
  have "grid st' = grid st" if "\<not> ok" using post that by (simp add: solve_post_def)
  moreover have "completions (grid st) = {}" if "\<not> ok"
    using solveSudoku_complete[OF assms _ run] that by blast
  moreover have "\<not> ok" if "valid (grid st)" "completions (grid st) = {}"
    using solveSudoku_sound(2)[OF that(1) assms(2), of st'] run that(2) by auto
  ultimately show ?thesis using run by blast
qed

theorem solveSudoku_false_iff_witness:
  "wf_grid dead_end \<and> count_empty dead_end < 4 \<and> valid dead_end \<and>
   (\<exists>st'. solveSudoku 4 (example_state dead_end) = Some (False, st') \<and>
      grid st' = dead_end \<and> length (trace st') = 2 \<and> completions dead_end = {})"
proof -
  have wf: "wf_grid dead_end" using dead_end_valid by (simp add: valid_def)
  have e: "count_empty dead_end < 4" by (simp add: dead_end_empty)
  have t: "map_option (\<lambda>(ok, s). (ok, length (trace s))) (solveSudoku 4 (example_state dead_end))
      = Some (False, 2)"
    by code_simp
  from solveSudoku_false_iff[of "example_state dead_end" 4] wf e
  obtain ok st' where "solveSudoku 4 (example_state dead_end) = Some (ok, st')"
    "\<not> ok \<longrightarrow> grid st' = dead_end \<and> completions dead_end = {}"
    by (auto simp: example_state_grid)
  with t have "solveSudoku 4 (example_state dead_end) = Some (False, st') \<and>
      grid st' = dead_end \<and> length (trace st') = 2 \<and> completions dead_end = {}"
    by simp
  with wf e dead_end_valid show ?thesis by blast
qed

theorem solveSudoku_false_iff_counterexample:
  "map_option fst (solveSudoku 1 (example_state clash_grid)) = Some True \<and>
   completions clash_grid = {}"
proof -
  have "map_option fst (solveSudoku 1 (example_state clash_grid)) = Some True"
    by code_simp
  then show ?thesis using clash_grid_no_completion by simp
qed

text \<open>
  C9. On the all-zero grid \<open>fillGrid\<close> returns true, whatever the random numbers are,
  and leaves a grid with no empty cell in which every row, column and 3x3 box contains
  each digit 1..9 exactly once.
\<close>

theorem fillGrid_empty_solved:
  assumes "82 \<le> fuel"
  shows "\<exists>st'. fillGrid fuel \<lparr>grid = replicate N (replicate N UNASSIGNED), rng = r, trace = t\<rparr>
                 = Some (True, st') \<and>
           full (grid st') \<and> (\<forall>u\<in>set units. each_once (unitVals (grid st') u))"
proof -
  have "grid \<lparr>grid = replicate N (replicate N UNASSIGNED), rng = r, trace = t\<rparr> = emptyGrid"
    by (simp add: emptyGrid_def)
  from fillGrid_empty[OF this assms] show ?thesis by (auto simp: solved_def)
qed

theorem fillGrid_empty_solved_witness:
  "(82::nat) \<le> 82 \<and>
   (\<exists>st'. fillGrid 82 \<lparr>grid = replicate N (replicate N UNASSIGNED), rng = (\<lambda>i. 7 * i + 3),
                         trace = []\<rparr> = Some (True, st') \<and>
      full (grid st') \<and> list_all (\<lambda>u. each_once (unitVals (grid st') u)) units)"
  using fillGrid_empty_solved[of 82 "\<lambda>i. 7 * i + 3" "[]"] by (simp add: list_all_iff)

section \<open>Search invariant\<close>

text \<open>
  C6. Starting from a grid with no duplicate nonzero digit in any row, column or box,
  every grid state written during the search of \<open>solveSudoku\<close>, \<open>fillGrid\<close> and
  \<open>countSolutionsDFS\<close> has no duplicate nonzero digit in any row, column or box. The
  states are the ones the history records: the grid after each placement and each undo.
\<close>

theorem search_states_no_dup:
  assumes "wf_grid (grid st)" and "no_dup (grid st)" and "count_empty (grid st) < fuel"
  shows "(\<exists>ok st' new. solveSudoku fuel st = Some (ok, st') \<and> trace st' = trace st @ new \<and>
            (\<forall>x\<in>set new. no_dup x)) \<and>
         (\<exists>ok st' new. fillGrid fuel st = Some (ok, st') \<and> trace st' = trace st @ new \<and>
            (\<forall>x\<in>set new. no_dup x)) \<and>
         (\<exists>count' st' new. countSolutionsDFS fuel limit count st = Some (count', st') \<and>
            trace st' = trace st @ new \<and> (\<forall>x\<in>set new. no_dup x))"
proof -
  from solveSudoku_frame[OF assms(1,3)] obtain ok st' where
    run: "solveSudoku fuel st = Some (ok, st')" by blast
  from solveSudoku_trace[OF assms(1,3,2) run] obtain new where
    "trace st' = trace st @ new" "\<forall>x\<in>set new. no_dup x"
    unfolding steps_no_dup_def by blast
  with run have a: "\<exists>ok st' new. solveSudoku fuel st = Some (ok, st') \<and>
      trace st' = trace st @ new \<and> (\<forall>x\<in>set new. no_dup x)" by blast
  from countSolutionsDFS_frame[OF assms(1,3), of limit count] obtain count' st2 where
    run2: "countSolutionsDFS fuel limit count st = Some (count', st2)" by blast
  from countSolutionsDFS_trace[OF assms(1,3,2) run2] obtain new2 where
    "trace st2 = trace st @ new2" "\<forall>x\<in>set new2. no_dup x"
    unfolding steps_no_dup_def by blast
  with run2 have b: "\<exists>count' st' new. countSolutionsDFS fuel limit count st = Some (count', st') \<and>
      trace st' = trace st @ new \<and> (\<forall>x\<in>set new. no_dup x)" by blast
  from a b show ?thesis by (simp add: fillGrid_eq)
qed

theorem search_states_no_dup_witness:
  "wf_grid dead_end \<and> no_dup dead_end \<and> count_empty dead_end < 4 \<and>
   (\<exists>ok st' new. solveSudoku 4 (example_state dead_end) = Some (ok, st') \<and>
      trace st' = new \<and> length new = 2 \<and> list_all no_dup new) \<and>
   (\<exists>ok st' new. fillGrid 4 (example_state dead_end) = Some (ok, st') \<and>
      trace st' = new \<and> length new = 2 \<and> list_all no_dup new) \<and>
   (\<exists>count' st' new. countSolutionsDFS 4 2 0 (example_state dead_end) = Some (count', st') \<and>
      trace st' = new \<and> length new = 2 \<and> list_all no_dup new)"
proof -
  have wf: "wf_grid dead_end" and n: "no_dup dead_end"
    using dead_end_valid by (simp_all add: valid_def)
  have e: "count_empty dead_end < 4" by (simp add: dead_end_empty)
  have t: "trace (example_state dead_end) = []" by (simp add: example_state_def)
  have l1: "map_option (\<lambda>(ok, s). length (trace s)) (solveSudoku 4 (example_state dead_end)) = Some 2"
    by code_simp
  have l2: "map_option (\<lambda>(c, s). length (trace s)) (countSolutionsDFS 4 2 0 (example_state dead_end))
      = Some 2"
    by code_simp
  note inst = search_states_no_dup[of "example_state dead_end" 4 2 0,
      unfolded example_state_grid t append_Nil, OF wf n e]
  from inst obtain ok st1 where a: "solveSudoku 4 (example_state dead_end) = Some (ok, st1)"
    "\<forall>x\<in>set (trace st1). no_dup x" by auto
  from inst obtain cnt st2 where b:
    "countSolutionsDFS 4 2 0 (example_state dead_end) = Some (cnt, st2)"
    "\<forall>x\<in>set (trace st2). no_dup x" by auto
  have la: "length (trace st1) = 2" using l1 a(1) by simp
  have lb: "length (trace st2) = 2" using l2 b(1) by simp
  have A: "\<exists>ok st' new. solveSudoku 4 (example_state dead_end) = Some (ok, st') \<and>
      trace st' = new \<and> length new = 2 \<and> list_all no_dup new"
    using a la by (simp add: list_all_iff)
  then have B: "\<exists>ok st' new. fillGrid 4 (example_state dead_end) = Some (ok, st') \<and>
      trace st' = new \<and> length new = 2 \<and> list_all no_dup new"
    by (simp add: fillGrid_eq)
  have C: "\<exists>count' st' new. countSolutionsDFS 4 2 0 (example_state dead_end) = Some (count', st') \<and>
      trace st' = new \<and> length new = 2 \<and> list_all no_dup new"
    using b lb by (simp add: list_all_iff)
  show ?thesis by (intro conjI wf n e A B C)
qed

section \<open>Solution counter\<close>

text \<open>
  C2 (as the code has it). For a grid whose cells are in 0..9 with no duplicate
  nonzero digit in a row, column or box, \<open>countSolutions\<close> returns \<open>min n limit\<close> for a
  limit that is not negative, where \<open>n\<close> is the number of full valid completions, and
  0 for a negative limit; the result never exceeds a non-negative limit. The search
  stops once the count has reached the limit: a call entered with the limit reached
  returns at once with the state untouched, and a loop whose recursive call comes back
  with the limit reached undoes its placement and returns without trying the remaining
  digits. On a full grid that breaks the rules the counter answers 1 although the grid
  has no valid completion.
\<close>

theorem countSolutions_min:
  assumes "valid (grid st)" and "count_empty (grid st) < fuel"
  shows "(\<exists>cnt st'. countSolutions fuel limit st = Some (cnt, st') \<and>
            cnt = min (int (card (completions (grid st)))) (max limit 0) \<and>
            (0 \<le> limit \<longrightarrow> cnt = min (int (card (completions (grid st)))) limit \<and> cnt \<le> limit)) \<and>
         (\<forall>n count s. limit \<le> count \<longrightarrow>
            countSolutionsDFS (Suc n) limit count s = Some (count, s)) \<and>
         (\<forall>n row col num rest count s count2 s2.
            isSafe (grid s) row col num \<longrightarrow>
            countSolutionsDFS n limit count (assign row col num s) = Some (count2, s2) \<longrightarrow>
            limit \<le> count2 \<longrightarrow>
            countDigits n limit row col (num # rest) count s =
              Some (count2, assign row col UNASSIGNED s2))"
proof -
  from countSolutions_result[OF assms, of limit] obtain st' where
    "countSolutions fuel limit st =
       Some (min (int (card (completions (grid st)))) (max limit 0), st')" by blast
  then have "\<exists>cnt st'. countSolutions fuel limit st = Some (cnt, st') \<and>
            cnt = min (int (card (completions (grid st)))) (max limit 0) \<and>
            (0 \<le> limit \<longrightarrow> cnt = min (int (card (completions (grid st)))) limit \<and> cnt \<le> limit)"
    by (intro exI[of _ "min (int (card (completions (grid st)))) (max limit 0)"] exI[of _ st'])
      (simp add: max_def)
  then show ?thesis by simp
qed

lemma example_puzzle_completions: "completions example_puzzle = {example_solution}"
proof -
  have e: "count_empty example_puzzle < 4" by (simp add: example_puzzle_empty)
  have t: "map_option (grid \<circ> snd) (solveSudoku 4 (example_state example_puzzle)) = Some example_solution"
    "map_option fst (solveSudoku 4 (example_state example_puzzle)) = Some True"
    by code_simp+
  then obtain st' where run: "solveSudoku 4 (example_state example_puzzle) = Some (True, st')"
    and g: "grid st' = example_solution" by auto
  have v: "valid (grid (example_state example_puzzle))"
    using example_puzzle_valid by (simp add: example_state_grid)
  from solveSudoku_sound(2)[OF v _ run] e g
  have mem: "example_solution \<in> completions example_puzzle"
    by (simp add: example_state_grid)
  have c: "map_option fst (countSolutions 4 2 (example_state example_puzzle)) = Some 1"
    by code_simp
  from countSolutions_result[OF v, of 4 2] e
  have "min (int (card (completions example_puzzle))) 2 = 1"
    using c by (auto simp: example_state_grid)
  then have "card (completions example_puzzle) = 1" by simp
  then obtain x where "completions example_puzzle = {x}" by (rule card_1_singletonE)
  with mem show ?thesis by auto
qed

theorem countSolutions_min_witness:
  "valid example_puzzle \<and> count_empty example_puzzle < 4 \<and>
   card (completions example_puzzle) = 1 \<and>
   (\<exists>st'. countSolutions 4 2 (example_state example_puzzle) = Some (1, st')) \<and>
   (\<exists>st'. countSolutions 4 0 (example_state example_puzzle) = Some (0, st')) \<and>
   (\<exists>st'. countSolutions 4 (- 3) (example_state example_puzzle) = Some (0, st'))"
proof -
  have e: "count_empty example_puzzle < 4" by (simp add: example_puzzle_empty)
  have v: "valid (grid (example_state example_puzzle))"
    using example_puzzle_valid by (simp add: example_state_grid)
  have e': "count_empty (grid (example_state example_puzzle)) < 4"
    using e by (simp add: example_state_grid)
  have c: "card (completions example_puzzle) = 1" by (simp add: example_puzzle_completions)
  have "\<exists>st'. countSolutions 4 limit (example_state example_puzzle) =
          Some (min 1 (max limit 0), st')" for limit
    using countSolutions_min[OF v e', of limit] c by (auto simp: example_state_grid)
  from this[of 2] this[of 0] this[of "- 3"] example_puzzle_valid e c show ?thesis by simp
qed

theorem countSolutions_min_counterexample:
  "map_option fst (countSolutions 1 2 (example_state clash_grid)) = Some 1 \<and>
   min (int (card (completions clash_grid))) 2 = 0 \<and>
   map_option fst (countSolutions 1 (- 1) (example_state example_solution)) = Some 0"
proof -
  have "map_option fst (countSolutions 1 2 (example_state clash_grid)) = Some 1"
    "map_option fst (countSolutions 1 (- 1) (example_state example_solution)) = Some 0"
    by code_simp+
  then show ?thesis by (simp add: clash_grid_no_completion)
qed

section \<open>Generator\<close>

text \<open>
  C1. For every difficulty string \<open>generatePuzzle\<close> returns a grid with exactly one
  full valid completion: \<open>countSolutions\<close> with limit 2 answers 1 on it, and every
  nonzero cell of the puzzle equals the corresponding cell of the complete solution
  that \<open>fillGrid\<close> built before carving.
\<close>

theorem generatePuzzle_unique:
  assumes "wf_grid (grid st)" and "83 \<le> fuel"
  shows "\<exists>sol_st removed st'.
           fillGrid (fuel - 1) (st\<lparr>grid := clearCells (grid st)\<rparr>) = Some (True, sol_st) \<and>
           solved (grid sol_st) \<and>
           generatePuzzle fuel difficulty st = Some (removed, st') \<and>
           card (completions (grid st')) = 1 \<and>
           (\<forall>s f. grid s = grid st' \<longrightarrow> 82 \<le> f \<longrightarrow> (\<exists>s'. countSolutions f 2 s = Some (1, s'))) \<and>
           (\<forall>r<9. \<forall>c<9. grid st' ! r ! c \<noteq> 0 \<longrightarrow> grid st' ! r ! c = grid sol_st ! r ! c)"
proof -
  obtain k where k: "fuel = Suc k" "82 \<le> k" using assms(2) by (cases fuel) simp_all
  from generatePuzzle_run[OF assms(1) k(2), of difficulty] obtain sol_st removed st' where
    fill: "fillGrid k (st\<lparr>grid := clearCells (grid st)\<rparr>) = Some (True, sol_st)"
    and sol: "solved (grid sol_st)"
    and gen: "generatePuzzle (Suc k) difficulty st = Some (removed, st')"
    and v: "valid (grid st')" and one: "completions (grid st') = {grid sol_st}"
    by blast
  have cnt: "\<exists>s'. countSolutions f 2 s = Some (1, s')" if "grid s = grid st'" "82 \<le> f" for s f
  proof -
    have "count_empty (grid s) < f" using count_empty_le[of "grid s"] that(2) by simp
    from countSolutions_result[OF _ this, of 2] v that(1) one show ?thesis by auto
  qed
  have "extends (grid st') (grid sol_st)" using one by (auto simp: completions_def)
  then have "\<forall>r<9. \<forall>c<9. grid st' ! r ! c \<noteq> 0 \<longrightarrow> grid st' ! r ! c = grid sol_st ! r ! c"
    by (simp add: extends_cells)
  with fill sol gen one cnt show ?thesis unfolding k(1) by auto
qed

theorem generatePuzzle_unique_witness:
  "wf_grid example_puzzle \<and> (83::nat) \<le> 83 \<and>
   (\<exists>sol_st removed st'.
      fillGrid 82 ((example_state example_puzzle)\<lparr>grid := clearCells example_puzzle\<rparr>)
        = Some (True, sol_st) \<and>
      solved (grid sol_st) \<and>
      generatePuzzle 83 ''hard'' (example_state example_puzzle) = Some (removed, st') \<and>
      card (completions (grid st')) = 1 \<and>
      (\<exists>s'. countSolutions 82 2 st' = Some (1, s')) \<and>
      extends (grid st') (grid sol_st))"
proof -
  from generatePuzzle_unique[of "example_state example_puzzle" 83 "''hard''"] example_puzzle_wf
  obtain sol_st removed st' where
    "fillGrid 82 ((example_state example_puzzle)\<lparr>grid := clearCells example_puzzle\<rparr>)
        = Some (True, sol_st)"
    "solved (grid sol_st)"
    "generatePuzzle 83 ''hard'' (example_state example_puzzle) = Some (removed, st')"
    "card (completions (grid st')) = 1"
    "\<forall>s f. grid s = grid st' \<longrightarrow> 82 \<le> f \<longrightarrow> (\<exists>s'. countSolutions f 2 s = Some (1, s'))"
    "\<forall>r<9. \<forall>c<9. grid st' ! r ! c \<noteq> 0 \<longrightarrow> grid st' ! r ! c = grid sol_st ! r ! c"
    by (auto simp: example_state_grid)
  moreover from this(5) have "\<exists>s'. countSolutions 82 2 st' = Some (1, s')" by simp
  moreover from calculation(6) have "extends (grid st') (grid sol_st)" by (simp add: extends_cells)
  ultimately show ?thesis using example_puzzle_wf by blast
qed

text \<open>
  C7 (as the code has it). \<open>generatePuzzle\<close> draws the clue target as the low end of
  the difficulty's range plus \<open>rand() mod 6\<close>: 45..50 for \<open>easy\<close>, 34..39 for
  \<open>medium\<close>, 24..29 for \<open>hard\<close>, and the medium range for any other token. Of the
  \<open>RAND_MAX + 1\<close> values of \<open>rand()\<close>, each target of the range is drawn by
  \<open>(RAND_MAX + 1) div 6\<close> of them, and the first \<open>(RAND_MAX + 1) mod 6\<close> targets by
  one more: the draw is uniform only when 6 divides \<open>RAND_MAX + 1\<close>. The puzzle
  returned is what \<open>carveUnique\<close> leaves when asked to remove 81 minus the target
  cells of the filled grid: it never removes more, so the puzzle has at least as many
  filled cells as the target, and it has more only when no filled cell is left whose
  removal would keep the completion unique.
\<close>

theorem generatePuzzle_clues:
  assumes "wf_grid (grid st)" and "83 \<le> fuel"
  shows "\<exists>sol_st lo clues removed st'.
           fillGrid (fuel - 1) (st\<lparr>grid := clearCells (grid st)\<rparr>) = Some (True, sol_st) \<and>
           (difficulty = ''easy'' \<longrightarrow> lo = 45) \<and>
           (difficulty = ''medium'' \<longrightarrow> lo = 34) \<and>
           (difficulty = ''hard'' \<longrightarrow> lo = 24) \<and>
           (difficulty \<noteq> ''easy'' \<and> difficulty \<noteq> ''medium'' \<and> difficulty \<noteq> ''hard'' \<longrightarrow> lo = 34) \<and>
           clues = lo + int (rng sol_st 0) mod 6 \<and> lo \<le> clues \<and> clues \<le> lo + 5 \<and>
           (\<forall>randMax k. k < 6 \<longrightarrow>
              drawCount difficulty sol_st randMax (lo + int k) =
                Suc randMax div 6 + (if k < Suc randMax mod 6 then 1 else 0)) \<and>
           carveUnique (fuel - 1) (81 - clues) (sol_st\<lparr>rng := (\<lambda>i. rng sol_st (Suc i))\<rparr>)
             = Some (removed, st') \<and>
           generatePuzzle fuel difficulty st = Some (removed, st') \<and>
           0 \<le> removed \<and> removed \<le> 81 - clues \<and>
           int (count_filled (grid st')) = 81 - removed \<and>
           clues \<le> int (count_filled (grid st')) \<and>
           (int (count_filled (grid st')) = clues \<or>
            (\<forall>r<9. \<forall>c<9. grid st' ! r ! c \<noteq> 0 \<longrightarrow>
               2 \<le> card (completions (setCell (grid st') r c UNASSIGNED))))"
proof -
  obtain n where n: "fuel = Suc n" "82 \<le> n" using assms(2) by (cases fuel) simp_all
  from generatePuzzle_run[OF assms(1) n(2), of difficulty]
  obtain sol_st clues st2 removed st' where
    fill: "fillGrid n (st\<lparr>grid := clearCells (grid st)\<rparr>) = Some (True, sol_st)"
    and cc: "chooseClues difficulty sol_st = (clues, st2)"
    and carve: "carveUnique n (81 - clues) st2 = Some (removed, st')"
    and gen: "generatePuzzle (Suc n) difficulty st = Some (removed, st')"
    and rem: "0 \<le> removed" "removed \<le> 81 - clues" "int (count_empty (grid st')) = removed"
    and irr: "removed < 81 - clues \<longrightarrow> (\<forall>p\<in>set cells. irremovable (grid st') p)"
    by blast
  define lo where "lo = fst (clueRange difficulty)"
  define m where "m = int (rng sol_st 0) mod 6"
  have m: "0 \<le> m" "m \<le> 5" by (simp_all add: m_def)
  have val: "clues = lo + m" and st2: "st2 = sol_st\<lparr>rng := (\<lambda>i. rng sol_st (Suc i))\<rparr>"
    using cc by (simp_all add: chooseClues_value m_def lo_def)
  have l1: "difficulty = ''easy'' \<longrightarrow> lo = 45"
    and l2: "difficulty = ''medium'' \<longrightarrow> lo = 34"
    and l3: "difficulty = ''hard'' \<longrightarrow> lo = 24"
    and l4: "difficulty \<noteq> ''easy'' \<and> difficulty \<noteq> ''medium'' \<and> difficulty \<noteq> ''hard'' \<longrightarrow> lo = 34"
    by (simp_all add: lo_def clueRange_def)
  have b1: "lo \<le> clues" and b2: "clues \<le> lo + 5" using val m by simp_all
  have draw: "\<forall>randMax k. k < 6 \<longrightarrow>
      drawCount difficulty sol_st randMax (lo + int k) =
        Suc randMax div 6 + (if k < Suc randMax mod 6 then 1 else 0)"
    unfolding lo_def using drawCount_formula by blast
  have fill': "fillGrid (fuel - 1) (st\<lparr>grid := clearCells (grid st)\<rparr>) = Some (True, sol_st)"
    using fill by (simp add: n(1))
  have carve': "carveUnique (fuel - 1) (81 - clues) (sol_st\<lparr>rng := (\<lambda>i. rng sol_st (Suc i))\<rparr>)
      = Some (removed, st')"
    using carve by (simp add: n(1) st2)
  have gen': "generatePuzzle fuel difficulty st = Some (removed, st')"
    using gen by (simp only: n(1))
  have filled: "int (count_filled (grid st')) = 81 - removed"
    using count_empty_filled[of "grid st'"] rem(3) by linarith
  have le: "clues \<le> int (count_filled (grid st'))" using filled rem(2) by simp
  have stop: "int (count_filled (grid st')) = clues \<or>
      (\<forall>r<9. \<forall>c<9. grid st' ! r ! c \<noteq> 0 \<longrightarrow>
         2 \<le> card (completions (setCell (grid st') r c UNASSIGNED)))"
  proof (cases "removed < 81 - clues")
    case True
    with irr have all: "\<forall>p\<in>set cells. irremovable (grid st') p" by simp
    have "2 \<le> card (completions (setCell (grid st') r c UNASSIGNED))"
      if "r < 9" "c < 9" "grid st' ! r ! c \<noteq> 0" for r c
    proof -
      have "(r, c) \<in> set cells" using that(1,2) by (simp add: in_cells)
      with all have "irremovable (grid st') (r, c)" by blast
      then show ?thesis using that(3) by (simp add: irremovable_def cellAt_def)
    qed
    then show ?thesis by blast
  next
    case False
    with rem(2) have "removed = 81 - clues" by simp
    with filled show ?thesis by simp
  qed
  show ?thesis
    unfolding val[symmetric, unfolded m_def]
    by (intro exI[of _ sol_st] exI[of _ lo] exI[of _ clues] exI[of _ removed] exI[of _ st']
        conjI fill' l1 l2 l3 l4 val[unfolded m_def] b1 b2 draw carve' gen' rem(1) rem(2)
        filled le stop)
qed

theorem generatePuzzle_clues_witness:
  "wf_grid example_puzzle \<and> (83::nat) \<le> 83 \<and>
   (\<exists>sol_st lo clues removed st'.
      fillGrid 82 ((example_state example_puzzle)\<lparr>grid := clearCells example_puzzle\<rparr>)
        = Some (True, sol_st) \<and>
      lo = 34 \<and>
      clues = lo + int (rng sol_st 0) mod 6 \<and> lo \<le> clues \<and> clues \<le> lo + 5 \<and>
      (\<forall>randMax k. k < 6 \<longrightarrow>
         drawCount ''expert'' sol_st randMax (lo + int k) =
           Suc randMax div 6 + (if k < Suc randMax mod 6 then 1 else 0)) \<and>
      carveUnique 82 (81 - clues) (sol_st\<lparr>rng := (\<lambda>i. rng sol_st (Suc i))\<rparr>)
        = Some (removed, st') \<and>
      generatePuzzle 83 ''expert'' (example_state example_puzzle) = Some (removed, st') \<and>
      0 \<le> removed \<and> removed \<le> 81 - clues \<and>
      int (count_filled (grid st')) = 81 - removed \<and>
      clues \<le> int (count_filled (grid st')) \<and>
      (int (count_filled (grid st')) = clues \<or>
       (\<forall>r<9. \<forall>c<9. grid st' ! r ! c \<noteq> 0 \<longrightarrow>
          2 \<le> card (completions (setCell (grid st') r c UNASSIGNED)))))"
proof -
  have wf: "wf_grid (grid (example_state example_puzzle))"
    using example_puzzle_wf by (simp add: example_state_grid)
  from generatePuzzle_clues[OF wf order_refl, of "''expert''"] example_puzzle_wf
  show ?thesis by (simp add: example_state_grid)
qed

theorem generatePuzzle_clues_counterexample:
  "drawCount ''easy'' (example_state example_puzzle) 32767 45 = 5462 \<and>
   drawCount ''easy'' (example_state example_puzzle) 32767 50 = 5461 \<and>
   drawCount ''easy'' (example_state example_puzzle) 2147483647 45 = 357913942 \<and>
   drawCount ''easy'' (example_state example_puzzle) 2147483647 50 = 357913941"
  using drawCount_formula[of 0 "''easy''" "example_state example_puzzle" 32767]
    drawCount_formula[of 5 "''easy''" "example_state example_puzzle" 32767]
    drawCount_formula[of 0 "''easy''" "example_state example_puzzle" 2147483647]
    drawCount_formula[of 5 "''easy''" "example_state example_puzzle" 2147483647]
  by (simp add: clueRange_def)

end
